theory Spec2Isabelle
  imports Main "HOL-Library.AList"
begin

section \<open>Strings\<close>

text \<open>
  JavaScript strings are modelled as \<^typ>\<open>string\<close>, a list of 8-bit characters read
  as Latin-1 code points. \<open>isSpace\<close> is the class \<open>\s\<close> of regular expressions (and of
  \<open>String.prototype.trim\<close>) restricted to that range; \<open>toLowerCase\<close> maps the upper-case
  letters of that range to their lower-case partners.
\<close>

definition isSpace :: "char \<Rightarrow> bool" where
  "isSpace c = (c \<in> set [CHR 0x09, CHR 0x0A, CHR 0x0B, CHR 0x0C, CHR 0x0D, CHR 0x20, CHR 0xA0])"

definition lowerChar :: "char \<Rightarrow> char" where
  "lowerChar c =
     (let n = (of_char c :: nat)
      in if (65 \<le> n \<and> n \<le> 90) \<or> (192 \<le> n \<and> n \<le> 222 \<and> n \<noteq> 215)
         then char_of (n + 32) else c)"

definition toLowerCase :: "string \<Rightarrow> string" where
  "toLowerCase s = map lowerChar s"

definition trim :: "string \<Rightarrow> string" where
  "trim s = rev (dropWhile isSpace (rev (dropWhile isSpace s)))"

text \<open>\<open>s.replace(/\s+/g, " ")\<close>: every maximal run of white space becomes one blank. The
  flag says whether the previous character belonged to a run that is already replaced.\<close>

fun collapseFrom :: "bool \<Rightarrow> string \<Rightarrow> string" where
  "collapseFrom inRun [] = []"
| "collapseFrom inRun (c # cs) =
     (if isSpace c then (if inRun then collapseFrom True cs else CHR 0x20 # collapseFrom True cs)
      else c # collapseFrom False cs)"

definition collapseSpaces :: "string \<Rightarrow> string" where
  "collapseSpaces s = collapseFrom False s"

text \<open>\<open>parts.join(sep)\<close>.\<close>

fun join :: "string \<Rightarrow> string list \<Rightarrow> string" where
  "join sep [] = []"
| "join sep [p] = p"
| "join sep (p # q # ps) = p @ sep @ join sep (q # ps)"

text \<open>\<open>labelledBy.split(/\s+/).filter(Boolean)\<close>: the non-empty pieces between runs of
  white space. \<open>cur\<close> is the piece being read, in reverse.\<close>

fun splitSpaces :: "string \<Rightarrow> string \<Rightarrow> string list" where
  "splitSpaces cur [] = (if cur = [] then [] else [rev cur])"
| "splitSpaces cur (c # cs) =
     (if isSpace c then (if cur = [] then splitSpaces [] cs else rev cur # splitSpaces [] cs)
      else splitSpaces (c # cur) cs)"

text \<open>Decimal notation of an index, as a template literal prints it.\<close>

definition digitChar :: "nat \<Rightarrow> char" where
  "digitChar d = char_of (48 + d)"

function showNat :: "nat \<Rightarrow> string" where
  "showNat n = (if n < 10 then [digitChar n] else showNat (n div 10) @ [digitChar (n mod 10)])"
  by pat_completeness auto
termination
  by (relation "measure id") auto

declare showNat.simps [simp del]

text \<open>\<open>a || b\<close> on strings: the first operand unless it is empty.\<close>

definition orElse :: "string \<Rightarrow> string \<Rightarrow> string" where
  "orElse a b = (if a \<noteq> [] then a else b)"

section \<open>The DOM as the script sees it\<close>

text \<open>
  An element carries the properties and attributes the script reads or writes.
  \<open>getAttribute\<close> looks a name up in \<open>attrs\<close>; an absent attribute is \<open>null\<close>.
  For a \<open>select\<close> the properties \<open>value\<close> and \<open>selectedIndex\<close> are derived from the
  options, as the DOM derives them. \<open>el_form\<close> is \<open>el.form\<close>: \<open>None\<close> when the element
  has no form owner, otherwise the position of the owner in the document and the owner's
  \<open>action\<close> attribute. \<open>closestLabelText\<close> is
  the \<open>innerText\<close> of \<open>el.closest("label")\<close>, when there is such a label. \<open>el_levels\<close>
  lists, from the element upwards, each node that \<open>cssPath\<close> visits before it reaches the
  body, the root or a node without parent: the node's \<open>tagName\<close> and the \<open>tagName\<close>s of
  the children of its parent that precede it.
\<close>

record optionEl =
  opt_value :: string
  opt_selected :: bool

record element =
  tagName :: string
  attrs :: "(string \<times> string) list"
  el_id :: string
  el_name :: string
  disabled :: bool
  checked :: bool
  el_value :: string
  multiple :: bool
  el_options :: "optionEl list"
  innerText :: string
  el_form :: "(nat \<times> string option) option"
  closestLabelText :: "string option"
  el_levels :: "(string \<times> string list) list"

definition getAttribute :: "element \<Rightarrow> string \<Rightarrow> string option" where
  "getAttribute el n = map_of (attrs el) n"

text \<open>\<open>el.getAttribute(n) || d\<close>: an absent or empty attribute gives the default.\<close>

definition attrOr :: "element \<Rightarrow> string \<Rightarrow> string \<Rightarrow> string" where
  "attrOr el n d = (case getAttribute el n of None \<Rightarrow> d | Some v \<Rightarrow> orElse v d)"

record location =
  loc_origin :: string
  loc_pathname :: string
  loc_search :: string
  loc_href :: string

definition pageKey :: "location \<Rightarrow> string" where
  "pageKey loc = loc_origin loc @ loc_pathname loc @ loc_search loc"

section \<open>Control classifier\<close>

definition isUsableControl :: "element option \<Rightarrow> bool" where
  "isUsableControl e =
     (case e of
        None \<Rightarrow> False
      | Some el \<Rightarrow>
          if disabled el then False
          else if tagName el = ''INPUT'' then
            (let type = toLowerCase (attrOr el ''type'' ''text'')
             in if type \<in> set [''submit'', ''button'', ''image'', ''reset'', ''file''] then False
                else True)
          else tagName el = ''TEXTAREA'' \<or> tagName el = ''SELECT'')"

section \<open>Identity resolver\<close>

text \<open>The identity object \<open>{kind, value, tag}\<close>; \<open>tag\<close> is present for kind \<open>name\<close> only.\<close>

record stable =
  st_kind :: string
  st_value :: string
  st_tag :: "string option"

definition cssPart :: "string \<times> string list \<Rightarrow> string" where
  "cssPart lv =
     (case lv of (t, earlier) \<Rightarrow>
        toLowerCase t @ '':nth-of-type('' @ showNat (length (filter (\<lambda>c. c = t) earlier) + 1) @ '')'')"

definition cssPath :: "element \<Rightarrow> string" where
  "cssPath el = join '' > '' (map cssPart (rev (el_levels el)))"

definition getStableId :: "element \<Rightarrow> stable" where
  "getStableId el =
     (if el_id el \<noteq> [] then \<lparr>st_kind = ''id'', st_value = el_id el, st_tag = None\<rparr>
      else if el_name el \<noteq> [] then
        \<lparr>st_kind = ''name'', st_value = el_name el, st_tag = Some (tagName el)\<rparr>
      else \<lparr>st_kind = ''path'', st_value = cssPath el, st_tag = None\<rparr>)"

definition stableKey :: "stable option \<Rightarrow> string" where
  "stableKey s =
     (case s of
        None \<Rightarrow> ''unknown''
      | Some sid \<Rightarrow>
          if st_kind sid = ''id'' then ''id:'' @ st_value sid
          else if st_kind sid = ''name'' then
            ''name:'' @ orElse (case st_tag sid of None \<Rightarrow> [] | Some t \<Rightarrow> t) [] @ '':''
              @ st_value sid
          else if st_kind sid = ''path'' then ''path:'' @ st_value sid
          else ''unknown'')"

section \<open>Document queries\<close>

text \<open>
  A document is the list of its elements in tree order; a reference to an element is its
  position in that list. \<open>doc_select\<close> is the selector engine of the browser on an
  arbitrary selector text (it raises \<open>SyntaxError\<close> on a malformed one); the selectors
  whose shape the script fixes are modelled by the predicates below. \<open>doc_events\<close>
  records the events the script dispatches, in order. Of what the browser does in
  reaction to a write, the exclusivity of a radio group is modelled (\<open>uncheckGroup\<close>
  below); sanitization of an assigned value and the listeners of the dispatched events
  are outside the model.
\<close>

datatype error = InvalidStateError | SyntaxError | TypeError | StorageError

record document =
  doc_elements :: "element list"
  doc_select :: "string \<Rightarrow> error + nat option"
  doc_events :: "(nat \<times> string) list"

definition deref :: "document \<Rightarrow> nat option \<Rightarrow> element option" where
  "deref doc r =
     (case r of
        None \<Rightarrow> None
      | Some i \<Rightarrow> if i < length (doc_elements doc) then Some (doc_elements doc ! i) else None)"

text \<open>\<open>querySelectorAll\<close> and \<open>querySelector\<close> for a selector that holds of an element
  alone: the matching elements in tree order, and the first of them.\<close>

definition querySelectorAll :: "document \<Rightarrow> (element \<Rightarrow> bool) \<Rightarrow> nat list" where
  "querySelectorAll doc P =
     filter (\<lambda>i. P (doc_elements doc ! i)) [0..<length (doc_elements doc)]"

definition querySelector :: "document \<Rightarrow> (element \<Rightarrow> bool) \<Rightarrow> nat option" where
  "querySelector doc P = (case querySelectorAll doc P of [] \<Rightarrow> None | i # _ \<Rightarrow> Some i)"

definition getElementById :: "document \<Rightarrow> string \<Rightarrow> nat option" where
  "getElementById doc v = (if v = [] then None else querySelector doc (\<lambda>e. el_id e = v))"

text \<open>A type selector matches the tag name of an HTML element without regard to case; the
  empty tag leaves only the attribute selector.\<close>

definition matchesTag :: "string \<Rightarrow> element \<Rightarrow> bool" where
  "matchesTag t e = (t = [] \<or> toLowerCase (tagName e) = toLowerCase t)"

text \<open>\<open>tag[name="value"]\<close>.\<close>

definition matchesTagName :: "string \<Rightarrow> string \<Rightarrow> element \<Rightarrow> bool" where
  "matchesTagName t v e = (matchesTag t e \<and> getAttribute e ''name'' = Some v)"

text \<open>\<open>label[for="id"]\<close>.\<close>

definition matchesLabelFor :: "string \<Rightarrow> element \<Rightarrow> bool" where
  "matchesLabelFor v e = (matchesTag ''label'' e \<and> getAttribute e ''for'' = Some v)"

text \<open>\<open>input,textarea,select\<close>.\<close>

definition matchesControl :: "element \<Rightarrow> bool" where
  "matchesControl e = (matchesTag ''input'' e \<or> matchesTag ''textarea'' e \<or> matchesTag ''select'' e)"

section \<open>Fingerprint builder\<close>

definition normalizeText :: "string \<Rightarrow> string" where
  "normalizeText s = take 160 (collapseSpaces (toLowerCase (trim s)))"

definition textOf :: "document \<Rightarrow> nat option \<Rightarrow> string" where
  "textOf doc r = (case deref doc r of None \<Rightarrow> [] | Some e \<Rightarrow> innerText e)"

definition getLabelText :: "document \<Rightarrow> element \<Rightarrow> string" where
  "getLabelText doc el =
     (let lab = (if el_id el \<noteq> [] then textOf doc (querySelector doc (matchesLabelFor (el_id el)))
                 else [])
      in if lab \<noteq> [] then normalizeText lab
         else
           let wrapping = (case closestLabelText el of None \<Rightarrow> [] | Some t \<Rightarrow> t)
           in if wrapping \<noteq> [] then normalizeText wrapping
              else
                let labelledBy = attrOr el ''aria-labelledby'' [];
                    ids = splitSpaces [] labelledBy;
                    texts = filter (\<lambda>t. t \<noteq> []) (map (\<lambda>i. textOf doc (getElementById doc i)) ids)
                in if labelledBy \<noteq> [] \<and> texts \<noteq> [] then normalizeText (join '' '' texts)
                   else [])"

text \<open>A stored fingerprint; a field that is missing in storage reads as the empty string,
  which the script treats like \<open>undefined\<close>.\<close>

record fingerprint =
  fp_tag :: string
  fp_type :: string
  fp_name :: string
  fp_autocomplete :: string
  fp_placeholder :: string
  fp_ariaLabel :: string
  fp_ariaLabelledBy :: string
  fp_labelText :: string
  fp_testid :: string
  fp_formAction :: string

definition testIdOf :: "element \<Rightarrow> string" where
  "testIdOf el = orElse (attrOr el ''data-testid'' []) (orElse (attrOr el ''data-qa'' []) (attrOr el ''data-cy'' []))"

definition formActionOf :: "location \<Rightarrow> element \<Rightarrow> string" where
  "formActionOf loc el =
     orElse (case el_form el of None \<Rightarrow> [] | Some fa \<Rightarrow> (case snd fa of None \<Rightarrow> [] | Some t \<Rightarrow> t))
            (loc_pathname loc)"

definition getFingerprint :: "document \<Rightarrow> location \<Rightarrow> element \<Rightarrow> fingerprint" where
  "getFingerprint doc loc el =
     \<lparr>fp_tag = tagName el,
      fp_type = toLowerCase (attrOr el ''type'' []),
      fp_name = attrOr el ''name'' [],
      fp_autocomplete = attrOr el ''autocomplete'' [],
      fp_placeholder = attrOr el ''placeholder'' [],
      fp_ariaLabel = attrOr el ''aria-label'' [],
      fp_ariaLabelledBy = attrOr el ''aria-labelledby'' [],
      fp_labelText = getLabelText doc el,
      fp_testid = testIdOf el,
      fp_formAction = formActionOf loc el\<rparr>"

section \<open>Fingerprint matching\<close>

definition scoreMatch :: "document \<Rightarrow> location \<Rightarrow> fingerprint option \<Rightarrow> element option \<Rightarrow> nat" where
  "scoreMatch doc loc fpo elo =
     (case fpo of
        None \<Rightarrow> 0
      | Some fp \<Rightarrow>
         (case elo of
            None \<Rightarrow> 0
          | Some el \<Rightarrow>
             (let s = 0;
                  s = (if tagName el = fp_tag fp then s + 3 else s);
                  type = toLowerCase (attrOr el ''type'' []);
                  s = (if orElse type [] = orElse (fp_type fp) [] then s + 3 else s);
                  formAction = formActionOf loc el;
                  s = (if fp_formAction fp \<noteq> [] \<and> formAction = fp_formAction fp then s + 2 else s);
                  name = attrOr el ''name'' [];
                  s = (if fp_name fp \<noteq> [] \<and> name = fp_name fp then s + 10 else s);
                  testid = testIdOf el;
                  s = (if fp_testid fp \<noteq> [] \<and> testid = fp_testid fp then s + 12 else s);
                  placeholder = attrOr el ''placeholder'' [];
                  s = (if fp_placeholder fp \<noteq> [] \<and> placeholder = fp_placeholder fp then s + 5 else s);
                  autocomplete = attrOr el ''autocomplete'' [];
                  s = (if fp_autocomplete fp \<noteq> [] \<and> autocomplete = fp_autocomplete fp then s + 3 else s);
                  aria = attrOr el ''aria-label'' [];
                  s = (if fp_ariaLabel fp \<noteq> [] \<and> aria = fp_ariaLabel fp then s + 6 else s);
                  label = getLabelText doc el;
                  s = (if fp_labelText fp \<noteq> [] \<and> label \<noteq> [] \<and> label = normalizeText (fp_labelText fp)
                       then s + 10 else s)
              in s)))"

text \<open>The loop of \<open>findBestByFingerprint\<close> over the candidates, with its two variables.\<close>

fun bestLoop :: "(nat \<Rightarrow> nat) \<Rightarrow> nat list \<Rightarrow> nat option \<Rightarrow> nat \<Rightarrow> nat option \<times> nat" where
  "bestLoop sc [] best bestScore = (best, bestScore)"
| "bestLoop sc (el # rest) best bestScore =
     (if sc el > bestScore then bestLoop sc rest (Some el) (sc el)
      else bestLoop sc rest best bestScore)"

definition candidates :: "document \<Rightarrow> nat list" where
  "candidates doc =
     filter (\<lambda>i. isUsableControl (deref doc (Some i))) (querySelectorAll doc matchesControl)"

definition findBestByFingerprint :: "document \<Rightarrow> location \<Rightarrow> fingerprint option \<Rightarrow> nat option" where
  "findBestByFingerprint doc loc fpo =
     (case fpo of
        None \<Rightarrow> None
      | Some fp \<Rightarrow>
          (case bestLoop (\<lambda>i. scoreMatch doc loc fpo (deref doc (Some i))) (candidates doc) None 0 of
             (best, bestScore) \<Rightarrow> if bestScore \<ge> 12 then best else None))"

section \<open>Value codec\<close>

text \<open>
  The stored value object. \<open>cv_t\<close> is its discriminant \<open>t\<close>; the other selectors read
  a property as the script does, \<open>None\<close> where the object has no such property. A value
  or an index that storage may lack is an option.
\<close>

datatype controlValue =
    Checkbox bool
  | Radio bool string
  | Input "string option"
  | Textarea "string option"
  | SelectMultiple "int list option" "string list"
  | Select "int option" "string option"

fun cv_t :: "controlValue \<Rightarrow> string" where
  "cv_t (Checkbox c) = ''checkbox''"
| "cv_t (Radio c v) = ''radio''"
| "cv_t (Input v) = ''input''"
| "cv_t (Textarea v) = ''textarea''"
| "cv_t (SelectMultiple is vs) = ''select-multiple''"
| "cv_t (Select i v) = ''select''"

fun cv_checked :: "controlValue \<Rightarrow> bool" where
  "cv_checked (Checkbox c) = c"
| "cv_checked (Radio c v) = c"
| "cv_checked d = False"

fun cv_value :: "controlValue \<Rightarrow> string option" where
  "cv_value (Radio c v) = Some v"
| "cv_value (Input v) = v"
| "cv_value (Textarea v) = v"
| "cv_value (Select i v) = v"
| "cv_value d = None"

fun cv_selectedIndex :: "controlValue \<Rightarrow> int option" where
  "cv_selectedIndex (Select i v) = i"
| "cv_selectedIndex d = None"

fun cv_selectedIndexes :: "controlValue \<Rightarrow> int list option" where
  "cv_selectedIndexes (SelectMultiple is vs) = is"
| "cv_selectedIndexes d = None"

fun findIndex :: "('a \<Rightarrow> bool) \<Rightarrow> 'a list \<Rightarrow> nat option" where
  "findIndex P [] = None"
| "findIndex P (x # xs) = (if P x then Some 0 else map_option Suc (findIndex P xs))"

text \<open>The properties \<open>selectedIndex\<close> and \<open>value\<close> of a \<open>select\<close>, read and written as
  the DOM defines them on the list of options.\<close>

definition selectedIndex :: "element \<Rightarrow> int" where
  "selectedIndex el = (case findIndex opt_selected (el_options el) of None \<Rightarrow> - 1 | Some i \<Rightarrow> int i)"

definition deselectAll :: "optionEl list \<Rightarrow> optionEl list" where
  "deselectAll opts = map (\<lambda>opt. opt\<lparr>opt_selected := False\<rparr>) opts"

definition selectAt :: "nat \<Rightarrow> optionEl list \<Rightarrow> optionEl list" where
  "selectAt i opts = (if i < length opts then opts[i := (opts ! i)\<lparr>opt_selected := True\<rparr>] else opts)"

definition setSelectedIndex :: "element \<Rightarrow> int \<Rightarrow> element" where
  "setSelectedIndex el n =
     el\<lparr>el_options := (if 0 \<le> n then selectAt (nat n) (deselectAll (el_options el))
                        else deselectAll (el_options el))\<rparr>"

definition inputType :: "element \<Rightarrow> string" where
  "inputType el = toLowerCase (attrOr el ''type'' ''text'')"

definition getValue :: "element \<Rightarrow> string" where
  "getValue el =
     (if tagName el = ''SELECT'' then
        (case findIndex opt_selected (el_options el) of
           None \<Rightarrow> []
         | Some i \<Rightarrow> opt_value (el_options el ! i))
      else el_value el)"

text \<open>Assigning to \<open>value\<close>. On a \<open>select\<close> it selects the first option with that value and
  no other; on a file input it raises unless the string is empty.\<close>

definition setValue :: "element \<Rightarrow> string \<Rightarrow> error + element" where
  "setValue el v =
     (if tagName el = ''SELECT'' then
        Inr (el\<lparr>el_options :=
          (case findIndex (\<lambda>opt. opt_value opt = v) (el_options el) of
             None \<Rightarrow> deselectAll (el_options el)
           | Some i \<Rightarrow> selectAt i (deselectAll (el_options el)))\<rparr>)
      else if tagName el = ''INPUT'' \<and> inputType el = ''file'' \<and> v \<noteq> [] then Inl InvalidStateError
      else Inr (el\<lparr>el_value := v\<rparr>))"

definition readControlValue :: "element \<Rightarrow> controlValue option" where
  "readControlValue el =
     (let tag = tagName el
      in if tag = ''INPUT'' then
           (let type = toLowerCase (attrOr el ''type'' ''text'')
            in if type = ''checkbox'' then Some (Checkbox (checked el))
               else if type = ''radio'' then Some (Radio (checked el) (getValue el))
               else Some (Input (Some (getValue el))))
         else if tag = ''TEXTAREA'' then Some (Textarea (Some (getValue el)))
         else if tag = ''SELECT'' then
           (if multiple el then
              (let selected = filter (\<lambda>i. opt_selected (el_options el ! i)) [0..<length (el_options el)]
               in Some (SelectMultiple (Some (map int selected))
                          (map (\<lambda>i. opt_value (el_options el ! i)) selected)))
            else Some (Select (Some (selectedIndex el)) (Some (getValue el))))
         else None)"

definition writeControlValue :: "element \<Rightarrow> controlValue option \<Rightarrow> error + element" where
  "writeControlValue el data =
     (case data of
        None \<Rightarrow> Inr el
      | Some d \<Rightarrow>
         (let tag = tagName el;
              afterInput =
                (if tag = ''TEXTAREA'' \<and> cv_t d = ''textarea'' then
                   setValue el (case cv_value d of None \<Rightarrow> [] | Some v \<Rightarrow> v)
                 else if tag = ''SELECT'' then
                   (if multiple el \<and> cv_t d = ''select-multiple'' then
                      (let idxSet = set (case cv_selectedIndexes d of None \<Rightarrow> [] | Some is \<Rightarrow> is)
                       in Inr (el\<lparr>el_options :=
                            map (\<lambda>(opt, i). opt\<lparr>opt_selected := (int i \<in> idxSet)\<rparr>)
                              (zip (el_options el) [0..<length (el_options el)])\<rparr>))
                    else if \<not> multiple el \<and> cv_t d = ''select'' then
                      (case cv_value d of
                         Some v \<Rightarrow> setValue el v
                       | None \<Rightarrow>
                          (case cv_selectedIndex d of
                             Some n \<Rightarrow> Inr (setSelectedIndex el n)
                           | None \<Rightarrow> Inr el))
                    else Inr el)
                 else Inr el)
          in if tag = ''INPUT'' then
               (let type = toLowerCase (attrOr el ''type'' ''text'')
                in if type = ''checkbox'' \<and> cv_t d = ''checkbox'' then
                     Inr (el\<lparr>checked := cv_checked d\<rparr>)
                   else if type = ''radio'' \<and> cv_t d = ''radio'' then
                     Inr (el\<lparr>checked := cv_checked d\<rparr>)
                   else if cv_t d = ''input'' then
                     setValue el (case cv_value d of None \<Rightarrow> [] | Some v \<Rightarrow> v)
                   else afterInput)
             else afterInput))"

section \<open>Stored records and the persistence gateway\<close>

text \<open>
  A field record as \<open>recordChange\<close> builds it, a page record, and the object that maps
  page keys to page records: an association list, since \<open>Object.keys\<close> lists the keys in
  insertion order. \<open>pr_data\<close> is \<open>None\<close> when the stored \<open>data\<close> is not an array.
\<close>

record fieldRecord =
  fr_id :: "stable option"
  fr_tag :: string
  fr_type :: "string option"
  fr_value :: "controlValue option"
  fr_fingerprint :: "fingerprint option"

record pageRecord =
  pr_updatedAt :: nat
  pr_url :: string
  pr_data :: "fieldRecord list option"

type_synonym pages = "(string \<times> pageRecord) list"

text \<open>
  The extension's local storage. \<open>store_pages\<close> is the value under the storage key (the
  empty object when there is none). Each call of the storage interface consumes the head
  of \<open>store_faults\<close> and is rejected when that is \<open>True\<close>; with no entry left the call
  succeeds. \<open>store_writes\<close> lists the objects written so far, \<open>store_quota\<close> is
  \<open>QUOTA_BYTES\<close> when it is a number, and \<open>store_bytes\<close> is what \<open>getBytesInUse\<close>
  reports for a stored object.
\<close>

record storage =
  store_pages :: pages
  store_faults :: "bool list"
  store_writes :: "pages list"
  store_quota :: "int option"
  store_bytes :: "pages \<Rightarrow> nat"

definition nextFault :: "storage \<Rightarrow> bool \<times> storage" where
  "nextFault st =
     (case store_faults st of [] \<Rightarrow> (False, st) | f # fs \<Rightarrow> (f, st\<lparr>store_faults := fs\<rparr>))"

definition loadAllPages :: "storage \<Rightarrow> (error + pages) \<times> storage" where
  "loadAllPages st =
     (case nextFault st of (f, st1) \<Rightarrow>
        if f then (Inl StorageError, st1) else (Inr (store_pages st1), st1))"

definition saveAllPages :: "pages \<Rightarrow> storage \<Rightarrow> (error + unit) \<times> storage" where
  "saveAllPages ps st =
     (case nextFault st of (f, st1) \<Rightarrow>
        if f then (Inl StorageError, st1)
        else (Inr (), st1\<lparr>store_pages := ps, store_writes := store_writes st1 @ [ps]\<rparr>))"

definition getBytesUsed :: "storage \<Rightarrow> (error + nat) \<times> storage" where
  "getBytesUsed st =
     (case nextFault st of (f, st1) \<Rightarrow>
        if f then (Inl StorageError, st1) else (Inr (store_bytes st1 (store_pages st1)), st1))"

section \<open>Eviction policy\<close>

text \<open>\<open>pages[k]?.updatedAt || 0\<close>.\<close>

definition updatedAtOf :: "pages \<Rightarrow> string \<Rightarrow> nat" where
  "updatedAtOf ps k = (case map_of ps k of None \<Rightarrow> 0 | Some r \<Rightarrow> pr_updatedAt r)"

text \<open>The keys, oldest first; \<open>Array.prototype.sort\<close> is stable, as \<open>sort_key\<close> is.\<close>

definition evictionOrder :: "pages \<Rightarrow> string list" where
  "evictionOrder ps = sort_key (updatedAtOf ps) (map fst ps)"

text \<open>The loop of \<open>cleanupIfNeeded\<close> over the sorted keys, with the variables \<open>used\<close> and
  \<open>pages\<close>.\<close>

fun evictLoop :: "int \<Rightarrow> string list \<Rightarrow> nat \<Rightarrow> pages \<Rightarrow> storage \<Rightarrow> (error + unit) \<times> storage" where
  "evictLoop target [] used ps st = (Inr (), st)"
| "evictLoop target (k # ks) used ps st =
     (if int used \<le> target then (Inr (), st)
      else
        (case saveAllPages (AList.delete k ps) st of
           (Inl e, st1) \<Rightarrow> (Inl e, st1)
         | (Inr u, st1) \<Rightarrow>
            (case getBytesUsed st1 of
               (Inl e, st2) \<Rightarrow> (Inl e, st2)
             | (Inr used', st2) \<Rightarrow> evictLoop target ks used' (AList.delete k ps) st2)))"

text \<open>\<open>Math.floor(quota * TARGET_RATIO)\<close> with the ratio 0.90 taken as the fraction 9/10;
  the rounding of the floating-point product is not modelled.\<close>

definition targetOf :: "int \<Rightarrow> int" where
  "targetOf quota = (quota * 9) div 10"

definition cleanupIfNeeded :: "storage \<Rightarrow> (error + unit) \<times> storage" where
  "cleanupIfNeeded st =
     (case store_quota st of
        None \<Rightarrow> (Inr (), st)
      | Some quota \<Rightarrow>
          if quota \<le> 0 then (Inr (), st)
          else
            (case getBytesUsed st of
               (Inl e, st1) \<Rightarrow> (Inl e, st1)
             | (Inr used, st1) \<Rightarrow>
                 if int used \<le> targetOf quota then (Inr (), st1)
                 else
                   (case loadAllPages st1 of
                      (Inl e, st2) \<Rightarrow> (Inl e, st2)
                    | (Inr ps, st2) \<Rightarrow> evictLoop (targetOf quota) (evictionOrder ps) used ps st2)))"

section \<open>Change tracker\<close>

text \<open>The state of the script: the staged changes, a \<open>Map\<close> from StableKey to field
  record kept in insertion order, and the guard flag.\<close>

record script =
  changedMap :: "(string \<times> fieldRecord) list"
  restoring :: bool

text \<open>The object that \<open>recordChange\<close> stores for an element.\<close>

definition changeRecord :: "document \<Rightarrow> location \<Rightarrow> element \<Rightarrow> fieldRecord" where
  "changeRecord doc loc el =
     \<lparr>fr_id = Some (getStableId el),
      fr_tag = tagName el,
      fr_type = (case getAttribute el ''type'' of None \<Rightarrow> None
                 | Some t \<Rightarrow> if t \<noteq> [] then Some t else None),
      fr_value = readControlValue el,
      fr_fingerprint = Some (getFingerprint doc loc el)\<rparr>"

definition recordChange :: "document \<Rightarrow> location \<Rightarrow> element \<Rightarrow> script \<Rightarrow> script" where
  "recordChange doc loc el sc =
     (let id = getStableId el
      in sc\<lparr>changedMap := AList.update (stableKey (Some id)) (changeRecord doc loc el) (changedMap sc)\<rparr>)"

text \<open>The listener for \<open>input\<close> and \<open>change\<close> events; \<open>target\<close> is the element of
  the event. The debounce timer that \<open>scheduleSave\<close> sets is not modelled:
  \<open>saveCurrentPage\<close> is what runs when it fires.\<close>

definition onUserEdit :: "document \<Rightarrow> location \<Rightarrow> bool \<Rightarrow> nat option \<Rightarrow> script \<Rightarrow> script" where
  "onUserEdit doc loc isTrusted target sc =
     (if restoring sc then sc
      else if \<not> isTrusted then sc
      else
        (case deref doc target of
           None \<Rightarrow> sc
         | Some el \<Rightarrow> if \<not> isUsableControl (Some el) then sc else recordChange doc loc el sc))"

text \<open>The \<open>Map\<close> called \<open>merged\<close>: the stored items under their keys, then the staged
  entries.\<close>

definition setAll :: "(string \<times> fieldRecord) list \<Rightarrow> (string \<times> fieldRecord) list \<Rightarrow> (string \<times> fieldRecord) list" where
  "setAll entries m = foldl (\<lambda>acc kv. AList.update (fst kv) (snd kv) acc) m entries"

definition keyed :: "fieldRecord list \<Rightarrow> (string \<times> fieldRecord) list" where
  "keyed items = map (\<lambda>item. (stableKey (fr_id item), item)) items"

definition mergeChanges :: "fieldRecord list option \<Rightarrow> (string \<times> fieldRecord) list \<Rightarrow> (string \<times> fieldRecord) list" where
  "mergeChanges existing changed =
     setAll changed (case existing of None \<Rightarrow> [] | Some items \<Rightarrow> setAll (keyed items) [])"

text \<open>\<open>pages[key]?.data\<close>, when it is an array.\<close>

definition existingData :: "location \<Rightarrow> pages \<Rightarrow> fieldRecord list option" where
  "existingData loc ps = (case map_of ps (pageKey loc) of None \<Rightarrow> None | Some r \<Rightarrow> pr_data r)"

text \<open>The object that a flush writes: the loaded pages with the record of this page
  replaced.\<close>

definition flushedPages :: "location \<Rightarrow> nat \<Rightarrow> (string \<times> fieldRecord) list \<Rightarrow> pages \<Rightarrow> pages" where
  "flushedPages loc now changed ps =
     (let key = pageKey loc;
          existing = existingData loc ps;
          merged = mergeChanges existing changed
      in AList.update key
           \<lparr>pr_updatedAt = now, pr_url = loc_href loc, pr_data = Some (map snd merged)\<rparr> ps)"

definition saveCurrentPage :: "location \<Rightarrow> nat \<Rightarrow> script \<times> storage \<Rightarrow> script \<times> storage" where
  "saveCurrentPage loc now w =
     (case w of (sc, st) \<Rightarrow>
        if changedMap sc = [] then (sc, st)
        else
          (case loadAllPages st of
             (Inl e, st1) \<Rightarrow> (sc, st1)
           | (Inr ps, st1) \<Rightarrow>
               (case saveAllPages (flushedPages loc now (changedMap sc) ps) st1 of
                  (Inl e, st2) \<Rightarrow> (sc, st2)
                | (Inr u, st2) \<Rightarrow>
                    (case cleanupIfNeeded st2 of (r, st3) \<Rightarrow> (sc\<lparr>changedMap := []\<rparr>, st3)))))"

section \<open>Restore engine\<close>

text \<open>The property \<open>type\<close> of an input: the attribute in lower case when it names a
  known input type, else \<open>text\<close>.\<close>

definition typeProp :: "element \<Rightarrow> string" where
  "typeProp el =
     (let t = toLowerCase (attrOr el ''type'' [])
      in if t \<in> set [''hidden'', ''text'', ''search'', ''tel'', ''url'', ''email'', ''password'',
                      ''date'', ''month'', ''week'', ''time'', ''datetime-local'', ''number'',
                      ''range'', ''color'', ''checkbox'', ''radio'', ''file'', ''submit'',
                      ''image'', ''reset'', ''button'']
         then t else ''text'')"

definition findElementByStableId :: "document \<Rightarrow> stable option \<Rightarrow> nat option" where
  "findElementByStableId doc s =
     (case s of
        None \<Rightarrow> None
      | Some sid \<Rightarrow>
          if st_kind sid = ''id'' then getElementById doc (st_value sid)
          else if st_kind sid = ''name'' then
            (case st_tag sid of
               None \<Rightarrow> None
             | Some t \<Rightarrow> querySelector doc (matchesTagName t (st_value sid)))
          else if st_kind sid = ''path'' then
            (case doc_select doc (st_value sid) of Inl e \<Rightarrow> None | Inr r \<Rightarrow> r)
          else None)"

definition dispatchInputChange :: "nat \<Rightarrow> document \<Rightarrow> document" where
  "dispatchInputChange i doc = doc\<lparr>doc_events := doc_events doc @ [(i, ''input''), (i, ''change'')]\<rparr>"

text \<open>
  Two radio inputs are in one group when they have the same form owner (or both none) and
  the same non-empty \<open>name\<close> attribute. When a script sets \<open>checked\<close> of a radio to
  \<open>true\<close>, the browser sets it to \<open>false\<close> on every other radio of the group.
\<close>

definition isRadio :: "element \<Rightarrow> bool" where
  "isRadio e = (tagName e = ''INPUT'' \<and> toLowerCase (attrOr e ''type'' ''text'') = ''radio'')"

definition sameGroup :: "element \<Rightarrow> element \<Rightarrow> bool" where
  "sameGroup a b =
     (isRadio a \<and> isRadio b \<and> map_option fst (el_form a) = map_option fst (el_form b)
      \<and> attrOr a ''name'' [] \<noteq> [] \<and> getAttribute a ''name'' = getAttribute b ''name'')"

definition uncheckGroup :: "nat \<Rightarrow> document \<Rightarrow> document" where
  "uncheckGroup i doc =
     (case deref doc (Some i) of
        None \<Rightarrow> doc
      | Some el \<Rightarrow>
          doc\<lparr>doc_elements :=
            map (\<lambda>ej. if snd ej \<noteq> i \<and> sameGroup el (fst ej) then (fst ej)\<lparr>checked := False\<rparr> else fst ej)
              (zip (doc_elements doc) [0..<length (doc_elements doc)])\<rparr>)"

text \<open>Whether \<open>writeControlValue\<close> on this element with this value runs
  \<open>el.checked = true\<close> on a radio.\<close>

definition checksRadio :: "element \<Rightarrow> controlValue option \<Rightarrow> bool" where
  "checksRadio el data =
     (case data of
        None \<Rightarrow> False
      | Some d \<Rightarrow> isRadio el \<and> cv_t d = ''radio'' \<and> cv_checked d)"

definition applyToElement :: "document \<Rightarrow> nat option \<Rightarrow> fieldRecord \<Rightarrow> error + bool \<times> document" where
  "applyToElement doc r item =
     (case r of
        None \<Rightarrow> Inr (False, doc)
      | Some i \<Rightarrow>
         (case deref doc r of
            None \<Rightarrow> Inr (False, doc)
          | Some el \<Rightarrow>
              if \<not> isUsableControl (Some el) then Inr (False, doc)
              else if tagName el = ''INPUT'' \<and> toLowerCase (typeProp el) = ''radio''
                      \<and> (case fr_value item of None \<Rightarrow> False | Some d \<Rightarrow> cv_t d = ''radio'')
                      \<and> Some (getValue el) \<noteq> (case fr_value item of None \<Rightarrow> None | Some d \<Rightarrow> cv_value d)
                   then Inr (False, doc)
              else
                (case writeControlValue el (fr_value item) of
                   Inl e \<Rightarrow> Inl e
                 | Inr el' \<Rightarrow>
                     (let written = doc\<lparr>doc_elements := (doc_elements doc)[i := el']\<rparr>;
                          settled = (if checksRadio el (fr_value item) then uncheckGroup i written
                                     else written)
                      in Inr (True, dispatchInputChange i settled)))))"

text \<open>The loop over the elements that share tag and name; it runs inside \<open>try\<close>, so an
  exception ends it and leaves \<open>any\<close> as it is.\<close>

fun applyAll :: "document \<Rightarrow> nat list \<Rightarrow> fieldRecord \<Rightarrow> bool \<Rightarrow> bool \<times> document" where
  "applyAll doc [] item any = (any, doc)"
| "applyAll doc (i # rest) item any =
     (case applyToElement doc (Some i) item of
        Inl e \<Rightarrow> (any, doc)
      | Inr (ok, doc') \<Rightarrow> applyAll doc' rest item (if ok then True else any))"

text \<open>One turn of the loop of \<open>tryRestoreItems\<close>: the exception that escapes, if any,
  whether the item was applied, and the document afterwards.\<close>

definition restoreItem :: "location \<Rightarrow> document \<Rightarrow> fieldRecord \<Rightarrow> error option \<times> bool \<times> document" where
  "restoreItem loc doc item =
     (let sid = fr_id item;
          byName =
            (case sid of
               None \<Rightarrow> (False, doc)
             | Some s \<Rightarrow>
                (case st_tag s of
                   None \<Rightarrow> (False, doc)
                 | Some t \<Rightarrow>
                     if st_kind s = ''name'' \<and> st_value s \<noteq> [] \<and> t \<noteq> [] then
                       applyAll doc
                         (filter (\<lambda>i. isUsableControl (deref doc (Some i)))
                            (querySelectorAll doc (matchesTagName t (st_value s))))
                         item False
                     else (False, doc)))
      in case byName of (any, doc1) \<Rightarrow>
           if any then (None, True, doc1)
           else
             (case applyToElement doc1 (findElementByStableId doc1 sid) item of
                Inl e \<Rightarrow> (Some e, False, doc1)
              | Inr (ok, doc2) \<Rightarrow>
                  if ok then (None, True, doc2)
                  else
                    (case applyToElement doc2 (findBestByFingerprint doc2 loc (fr_fingerprint item)) item of
                       Inl e \<Rightarrow> (Some e, False, doc2)
                     | Inr (ok', doc3) \<Rightarrow> (None, ok', doc3))))"

fun restoreLoop :: "location \<Rightarrow> (string \<times> fieldRecord) list \<Rightarrow> bool \<Rightarrow> (string \<times> fieldRecord) list
    \<Rightarrow> document \<Rightarrow> error option \<times> bool \<times> (string \<times> fieldRecord) list \<times> document" where
  "restoreLoop loc [] changed pending doc = (None, changed, pending, doc)"
| "restoreLoop loc ((k, item) # rest) changed pending doc =
     (case restoreItem loc doc item of
        (Some e, ok, doc') \<Rightarrow> (Some e, changed, pending, doc')
      | (None, ok, doc') \<Rightarrow>
          if ok then restoreLoop loc rest True (AList.delete k pending) doc'
          else restoreLoop loc rest changed pending doc')"

definition tryRestoreItems :: "location \<Rightarrow> (string \<times> fieldRecord) list \<Rightarrow> document
    \<Rightarrow> error option \<times> bool \<times> (string \<times> fieldRecord) list \<times> document" where
  "tryRestoreItems loc pending doc = restoreLoop loc pending False pending doc"

record response =
  resp_ok :: bool
  resp_reason :: "string option"
  resp_missing :: "nat option"

text \<open>
  The wait for mutations: \<open>batches\<close> are the changes the page makes to the document
  before the timer fires, one per call of the observer; an exception inside the callback
  leaves the promise pending. When the list is used up the timer resolves.
\<close>

fun retryLoop :: "location \<Rightarrow> (string \<times> fieldRecord) list \<Rightarrow> document \<Rightarrow> (document \<Rightarrow> document) list
    \<Rightarrow> response \<times> document" where
  "retryLoop loc pending doc [] =
     (\<lparr>resp_ok = (pending = []), resp_reason = None, resp_missing = Some (length pending)\<rparr>, doc)"
| "retryLoop loc pending doc (m # ms) =
     (case tryRestoreItems loc pending (m doc) of
        (err, changed, pending', doc') \<Rightarrow>
          if err = None \<and> pending' = [] then
            (\<lparr>resp_ok = True, resp_reason = None, resp_missing = None\<rparr>, doc')
          else retryLoop loc pending' doc' ms)"

definition restoreWithRetries :: "location \<Rightarrow> fieldRecord list \<Rightarrow> bool \<Rightarrow> (document \<Rightarrow> document) list
    \<Rightarrow> document \<Rightarrow> (error + response) \<times> document" where
  "restoreWithRetries loc data observeOk batches doc =
     (case tryRestoreItems loc (setAll (keyed data) []) doc of
        (Some e, changed, pending, doc') \<Rightarrow> (Inl e, doc')
      | (None, changed, pending, doc') \<Rightarrow>
          if pending = [] then (Inr \<lparr>resp_ok = True, resp_reason = None, resp_missing = None\<rparr>, doc')
          else if \<not> observeOk then
            (Inr \<lparr>resp_ok = (pending = []), resp_reason = None, resp_missing = Some (length pending)\<rparr>, doc')
          else (case retryLoop loc pending doc' batches of (r, doc'') \<Rightarrow> (Inr r, doc'')))"

definition restoreCurrentPage :: "location \<Rightarrow> bool \<Rightarrow> (document \<Rightarrow> document) list
    \<Rightarrow> script \<times> storage \<times> document \<Rightarrow> (error + response) \<times> script \<times> storage \<times> document" where
  "restoreCurrentPage loc observeOk batches w =
     (case w of (sc, st, doc) \<Rightarrow>
        (case loadAllPages st of
           (Inl e, st1) \<Rightarrow> (Inl e, sc, st1, doc)
         | (Inr ps, st1) \<Rightarrow>
             (case existingData loc ps of
                None \<Rightarrow>
                  (Inr \<lparr>resp_ok = False, resp_reason = Some ''No saved data for this page.'',
                        resp_missing = None\<rparr>, sc, st1, doc)
              | Some data \<Rightarrow>
                  (case restoreWithRetries loc data observeOk batches doc of
                     (r, doc') \<Rightarrow> (r, sc\<lparr>restoring := False\<rparr>, st1, doc')))))"

section \<open>Notions used in the statements\<close>

text \<open>
  A single select is in canonical selection when writing its own value back cannot move
  the selection: the first selected option is the only selected one and no option before
  it carries the same value; or no option is selected and no option has the empty value.
\<close>

definition selectionCanonical :: "element \<Rightarrow> bool" where
  "selectionCanonical el =
     (case findIndex opt_selected (el_options el) of
        None \<Rightarrow> \<forall>opt\<in>set (el_options el). opt_value opt \<noteq> []
      | Some i \<Rightarrow>
          (\<forall>opt\<in>set (drop (Suc i) (el_options el)). \<not> opt_selected opt)
          \<and> (\<forall>opt\<in>set (take i (el_options el)). opt_value opt \<noteq> opt_value (el_options el ! i)))"

text \<open>The stored pages without the records under the given keys.\<close>

definition dropKeys :: "string list \<Rightarrow> pages \<Rightarrow> pages" where
  "dropKeys ks ps = filter (\<lambda>kv. fst kv \<notin> set ks) ps"

text \<open>Element \<open>j\<close> of the document is \<open>el\<close>, or \<open>el\<close> with \<open>checked\<close> set to
  \<open>false\<close> and nothing else changed.\<close>

definition sameButUnchecked :: "element \<Rightarrow> nat \<Rightarrow> document \<Rightarrow> bool" where
  "sameButUnchecked el j doc =
     (deref doc (Some j) = Some el \<or> deref doc (Some j) = Some (el\<lparr>checked := False\<rparr>))"

text \<open>The events dispatched on one element so far.\<close>

definition eventsAt :: "nat \<Rightarrow> document \<Rightarrow> (nat \<times> string) list" where
  "eventsAt j doc = filter (\<lambda>ev. fst ev = j) (doc_events doc)"

section \<open>An example page\<close>

text \<open>Concrete elements, documents and stored values on which the theorems below are
  instantiated.\<close>

definition demoLoc :: location where
  "demoLoc = \<lparr>loc_origin = ''https://shop.example'', loc_pathname = ''/checkout'',
              loc_search = ''?step=2'', loc_href = ''https://shop.example/checkout?step=2#pay''\<rparr>"

definition inputEl :: "string \<Rightarrow> (string \<times> string) list \<Rightarrow> string \<Rightarrow> bool \<Rightarrow> element" where
  "inputEl i as v c =
     \<lparr>tagName = ''INPUT'', attrs = as, el_id = i,
      el_name = (case map_of as ''name'' of None \<Rightarrow> [] | Some n \<Rightarrow> n),
      disabled = False, checked = c, el_value = v, multiple = False, el_options = [],
      innerText = [], el_form = None, closestLabelText = None,
      el_levels = [(''INPUT'', [])]\<rparr>"

definition noSelect :: "string \<Rightarrow> error + nat option" where
  "noSelect s = Inr None"

definition demoDoc :: document where
  "demoDoc =
     \<lparr>doc_elements =
        [inputEl ''a1'' [(''type'', ''text''), (''placeholder'', ''City'')] ''x'' False,
         inputEl ''a2'' [(''type'', ''text''), (''name'', ''city'')] ''y'' False,
         inputEl ''a3'' [(''type'', ''TEXT''), (''name'', ''city'')] ''z'' False],
      doc_select = noSelect,
      doc_events = []\<rparr>"

definition demoFp :: fingerprint where
  "demoFp = \<lparr>fp_tag = ''INPUT'', fp_type = ''text'', fp_name = ''city'', fp_autocomplete = [],
     fp_placeholder = ''City'', fp_ariaLabel = [], fp_ariaLabelledBy = [], fp_labelText = [],
     fp_testid = [], fp_formAction = ''/other''\<rparr>"

definition bareFp :: fingerprint where
  "bareFp = \<lparr>fp_tag = ''INPUT'', fp_type = ''text'', fp_name = [], fp_autocomplete = [],
     fp_placeholder = [], fp_ariaLabel = [], fp_ariaLabelledBy = [], fp_labelText = [],
     fp_testid = [], fp_formAction = ''/checkout''\<rparr>"

definition dupSelect :: element where
  "dupSelect =
     \<lparr>tagName = ''SELECT'', attrs = [(''name'', ''size'')], el_id = [], el_name = ''size'',
      disabled = False, checked = False, el_value = [], multiple = False,
      el_options = [\<lparr>opt_value = ''m'', opt_selected = False\<rparr>, \<lparr>opt_value = ''m'', opt_selected = True\<rparr>],
      innerText = [], el_form = None, closestLabelText = None, el_levels = [(''SELECT'', [])]\<rparr>"

definition sizeSelect :: element where
  "sizeSelect = dupSelect\<lparr>el_options :=
     [\<lparr>opt_value = ''s'', opt_selected = False\<rparr>, \<lparr>opt_value = ''m'', opt_selected = True\<rparr>]\<rparr>"

definition agreeBox :: element where
  "agreeBox = inputEl ''agree'' [(''type'', ''checkbox''), (''value'', ''on'')] ''on'' False"

definition radioEl :: "string \<Rightarrow> bool \<Rightarrow> element" where
  "radioEl v c = inputEl [] [(''type'', ''radio''), (''name'', ''plan''), (''value'', v)] v c"

definition planDoc :: document where
  "planDoc = \<lparr>doc_elements = [radioEl ''basic'' True, radioEl ''pro'' False],
              doc_select = noSelect, doc_events = []\<rparr>"

definition proItem :: fieldRecord where
  "proItem =
     \<lparr>fr_id = Some (getStableId (radioEl ''pro'' True)), fr_tag = ''INPUT'', fr_type = Some ''radio'',
      fr_value = readControlValue (radioEl ''pro'' True),
      fr_fingerprint = Some (getFingerprint planDoc demoLoc (radioEl ''pro'' True))\<rparr>"

definition flatBytes :: "pages \<Rightarrow> nat" where
  "flatBytes ps = 50 + 300 * length ps"

definition idleScript :: script where
  "idleScript = \<lparr>changedMap = [], restoring = False\<rparr>"

definition emptyStore :: storage where
  "emptyStore = \<lparr>store_pages = [], store_faults = [], store_writes = [], store_quota = None,
                 store_bytes = flatBytes\<rparr>"

definition cityInput :: "string \<Rightarrow> element" where
  "cityInput v = inputEl ''a1'' [(''type'', ''text''), (''placeholder'', ''City'')] v False"

definition stagedScript :: script where
  "stagedScript = recordChange demoDoc demoLoc (cityInput ''Oslo'') idleScript"

definition savedStore :: storage where
  "savedStore =
     \<lparr>store_pages =
        [(''https://shop.example/'', \<lparr>pr_updatedAt = 3, pr_url = ''https://shop.example/'', pr_data = Some []\<rparr>),
         (pageKey demoLoc,
          \<lparr>pr_updatedAt = 5, pr_url = loc_href demoLoc,
           pr_data = Some [changeRecord demoDoc demoLoc (cityInput ''Rome''),
                           changeRecord demoDoc demoLoc (agreeBox)]\<rparr>)],
      store_faults = [], store_writes = [], store_quota = None, store_bytes = flatBytes\<rparr>"

definition faultyStore :: storage where
  "faultyStore = savedStore\<lparr>store_faults := [True]\<rparr>"

definition pageAt :: "nat \<Rightarrow> pageRecord" where
  "pageAt t = \<lparr>pr_updatedAt = t, pr_url = ''https://shop.example/'', pr_data = Some []\<rparr>"

definition demoStore :: storage where
  "demoStore =
     \<lparr>store_pages = [(''p1'', pageAt 30), (''p2'', pageAt 10), (''p3'', pageAt 20)],
      store_faults = [], store_writes = [], store_quota = Some 1000,
      store_bytes = flatBytes\<rparr>"

section \<open>Properties of the identity resolver\<close>

lemma usable_tagName:
  "isUsableControl (Some el) \<Longrightarrow> tagName el \<in> {''INPUT'', ''TEXTAREA'', ''SELECT''}"
  by (auto simp: isUsableControl_def split: if_splits)

lemma name_key_inj:
  assumes "t1 \<in> {''INPUT'', ''TEXTAREA'', ''SELECT''}" "t2 \<in> {''INPUT'', ''TEXTAREA'', ''SELECT''}"
    and "t1 @ '':'' @ v1 = t2 @ '':'' @ v2"
  shows "t1 = t2 \<and> v1 = v2"
  using assms by auto

text \<open>
  C2. The derivation of the StableKey is a function of the identity, and on the
  identities that identity resolution produces for trackable controls it is injective:
  two such identities have the same key exactly when they are the same identity.
\<close>

theorem stableKey_deterministic_injective:
  assumes "isUsableControl (Some e1)" and "isUsableControl (Some e2)"
  shows "(stableKey (Some (getStableId e1)) = stableKey (Some (getStableId e2)))
           = (getStableId e1 = getStableId e2)"
proof -
  have t1: "tagName e1 \<in> {''INPUT'', ''TEXTAREA'', ''SELECT''}"
    using assms(1) by (rule usable_tagName)
  have t2: "tagName e2 \<in> {''INPUT'', ''TEXTAREA'', ''SELECT''}"
    using assms(2) by (rule usable_tagName)
  show ?thesis
    using name_key_inj[OF t1 t2, of "el_name e1" "el_name e2"]
    by (auto simp: stableKey_def getStableId_def orElse_def)
qed


theorem stableKey_deterministic_injective_witness:
  "isUsableControl (Some (inputEl ''a1'' [] ''x'' False))
   \<and> isUsableControl (Some (inputEl [] [(''name'', ''a1'')] ''y'' False))
   \<and> stableKey (Some (getStableId (inputEl ''a1'' [] ''x'' False))) = ''id:a1''
   \<and> stableKey (Some (getStableId (inputEl [] [(''name'', ''a1'')] ''y'' False))) = ''name:INPUT:a1''
   \<and> getStableId (inputEl ''a1'' [] ''x'' False) \<noteq> getStableId (inputEl [] [(''name'', ''a1'')] ''y'' False)"
proof -
  have u1: "isUsableControl (Some (inputEl ''a1'' [] ''x'' False))" by code_simp
  have u2: "isUsableControl (Some (inputEl [] [(''name'', ''a1'')] ''y'' False))" by code_simp
  have k1: "stableKey (Some (getStableId (inputEl ''a1'' [] ''x'' False))) = ''id:a1''"
    by code_simp
  have k2: "stableKey (Some (getStableId (inputEl [] [(''name'', ''a1'')] ''y'' False))) = ''name:INPUT:a1''"
    by code_simp
  from stableKey_deterministic_injective[OF u1 u2] u1 u2 k1 k2 show ?thesis by simp
qed

text \<open>The restriction to trackable controls matters: on identity objects with other tags,
  which identity resolution never builds for a trackable control, two keys can coincide.\<close>

lemma stableKey_collision_for_other_tags:
  "stableKey (Some \<lparr>st_kind = ''name'', st_value = ''b:c'', st_tag = Some ''A''\<rparr>)
     = stableKey (Some \<lparr>st_kind = ''name'', st_value = ''c'', st_tag = Some ''A:b''\<rparr>)"
  by (simp add: stableKey_def orElse_def)

section \<open>Properties of fingerprint matching\<close>

lemma bestLoop_char:
  "bestLoop sc xs best bs = (b', s') \<Longrightarrow>
     (b' = best \<and> s' = bs \<and> (\<forall>j\<in>set xs. sc j \<le> bs))
     \<or> (\<exists>pre i post. xs = pre @ i # post \<and> b' = Some i \<and> s' = sc i \<and> bs < sc i
            \<and> (\<forall>j\<in>set pre. sc j < sc i) \<and> (\<forall>j\<in>set post. sc j \<le> sc i))"
proof (induction xs arbitrary: best bs)
  case Nil
  then show ?case by simp
next
  case (Cons x xs)
  show ?case
  proof (cases "sc x > bs")
    case True
    with Cons.prems have run: "bestLoop sc xs (Some x) (sc x) = (b', s')" by simp
    from Cons.IH[OF run] show ?thesis
    proof
      assume "b' = Some x \<and> s' = sc x \<and> (\<forall>j\<in>set xs. sc j \<le> sc x)"
      with True have "x # xs = [] @ x # xs \<and> b' = Some x \<and> s' = sc x \<and> bs < sc x
            \<and> (\<forall>j\<in>set []. sc j < sc x) \<and> (\<forall>j\<in>set xs. sc j \<le> sc x)" by simp
      then show ?thesis by blast
    next
      assume "\<exists>pre i post. xs = pre @ i # post \<and> b' = Some i \<and> s' = sc i \<and> sc x < sc i
            \<and> (\<forall>j\<in>set pre. sc j < sc i) \<and> (\<forall>j\<in>set post. sc j \<le> sc i)"
      then obtain pre i post where d: "xs = pre @ i # post" "b' = Some i" "s' = sc i" "sc x < sc i"
        "\<forall>j\<in>set pre. sc j < sc i" "\<forall>j\<in>set post. sc j \<le> sc i" by blast
      with True have "x # xs = (x # pre) @ i # post \<and> b' = Some i \<and> s' = sc i \<and> bs < sc i
            \<and> (\<forall>j\<in>set (x # pre). sc j < sc i) \<and> (\<forall>j\<in>set post. sc j \<le> sc i)" by simp
      then show ?thesis by blast
    qed
  next
    case False
    with Cons.prems have run: "bestLoop sc xs best bs = (b', s')" by simp
    from Cons.IH[OF run] show ?thesis
    proof
      assume "b' = best \<and> s' = bs \<and> (\<forall>j\<in>set xs. sc j \<le> bs)"
      with False show ?thesis by simp
    next
      assume "\<exists>pre i post. xs = pre @ i # post \<and> b' = Some i \<and> s' = sc i \<and> bs < sc i
            \<and> (\<forall>j\<in>set pre. sc j < sc i) \<and> (\<forall>j\<in>set post. sc j \<le> sc i)"
      then obtain pre i post where d: "xs = pre @ i # post" "b' = Some i" "s' = sc i" "bs < sc i"
        "\<forall>j\<in>set pre. sc j < sc i" "\<forall>j\<in>set post. sc j \<le> sc i" by blast
      with False have "x # xs = (x # pre) @ i # post \<and> b' = Some i \<and> s' = sc i \<and> bs < sc i
            \<and> (\<forall>j\<in>set (x # pre). sc j < sc i) \<and> (\<forall>j\<in>set post. sc j \<le> sc i)" by simp
      then show ?thesis by blast
    qed
  qed
qed

lemma candidates_sorted: "sorted_wrt (<) (candidates doc)"
  by (simp add: candidates_def querySelectorAll_def sorted_wrt_filter)

lemma before_in_prefix:
  assumes "sorted_wrt (<) (pre @ i # post)" "j \<in> set (pre @ i # post)" "j < (i::nat)"
  shows "j \<in> set pre"
  using assms by (auto simp: sorted_wrt_append)


lemma scoreMatch_sum:
  "scoreMatch doc loc (Some fp) (Some el) =
     3 * of_bool (tagName el = fp_tag fp)
   + 3 * of_bool (toLowerCase (attrOr el ''type'' []) = fp_type fp)
   + 2 * of_bool (fp_formAction fp \<noteq> [] \<and> formActionOf loc el = fp_formAction fp)
   + 10 * of_bool (fp_name fp \<noteq> [] \<and> attrOr el ''name'' [] = fp_name fp)
   + 12 * of_bool (fp_testid fp \<noteq> [] \<and> testIdOf el = fp_testid fp)
   + 5 * of_bool (fp_placeholder fp \<noteq> [] \<and> attrOr el ''placeholder'' [] = fp_placeholder fp)
   + 3 * of_bool (fp_autocomplete fp \<noteq> [] \<and> attrOr el ''autocomplete'' [] = fp_autocomplete fp)
   + 6 * of_bool (fp_ariaLabel fp \<noteq> [] \<and> attrOr el ''aria-label'' [] = fp_ariaLabel fp)
   + 10 * of_bool (fp_labelText fp \<noteq> [] \<and> getLabelText doc el \<noteq> []
                   \<and> getLabelText doc el = normalizeText (fp_labelText fp))"
proof -
  have aux: "\<And>c (s::nat) k. (if c then s + k else s) = s + k * of_bool c" by simp
  show ?thesis
    unfolding scoreMatch_def
    by (simp only: aux option.case Let_def) (simp add: orElse_def)
qed

lemma toLowerCase_tags:
  "toLowerCase ''INPUT'' = ''input''" "toLowerCase ''TEXTAREA'' = ''textarea''"
  "toLowerCase ''SELECT'' = ''select''" "toLowerCase ''input'' = ''input''"
  "toLowerCase ''textarea'' = ''textarea''" "toLowerCase ''select'' = ''select''"
  by code_simp+

lemma usable_matchesControl: "isUsableControl (Some el) \<Longrightarrow> matchesControl el"
  using usable_tagName[of el] by (auto simp: matchesControl_def matchesTag_def toLowerCase_tags)

lemma usable_deref:
  "isUsableControl (deref doc (Some i)) \<Longrightarrow>
     i < length (doc_elements doc) \<and> isUsableControl (Some (doc_elements doc ! i))"
  by (cases "i < length (doc_elements doc)") (simp_all add: deref_def isUsableControl_def)

lemma set_candidates: "set (candidates doc) = {i. isUsableControl (deref doc (Some i))}"
proof (rule set_eqI)
  fix i
  show "(i \<in> set (candidates doc)) = (i \<in> {i. isUsableControl (deref doc (Some i))})"
  proof
    assume "i \<in> set (candidates doc)"
    then show "i \<in> {i. isUsableControl (deref doc (Some i))}" by (simp add: candidates_def)
  next
    assume "i \<in> {i. isUsableControl (deref doc (Some i))}"
    then have u: "isUsableControl (deref doc (Some i))" by simp
    from usable_deref[OF u] usable_matchesControl[of "doc_elements doc ! i"] u
    show "i \<in> set (candidates doc)" by (simp add: candidates_def querySelectorAll_def)
  qed
qed

lemma findBest_Some:
  assumes "findBestByFingerprint doc loc (Some fp) = Some i"
  defines "sc \<equiv> \<lambda>j. scoreMatch doc loc (Some fp) (deref doc (Some j))"
  shows "i \<in> set (candidates doc) \<and> 12 \<le> sc i
         \<and> (\<forall>j\<in>set (candidates doc). sc j \<le> sc i \<and> (j < i \<longrightarrow> sc j < sc i))"
proof -
  obtain b s where run: "bestLoop sc (candidates doc) None 0 = (b, s)" by fastforce
  from assms(1) run have res: "12 \<le> s" "b = Some i"
    by (auto simp: findBestByFingerprint_def sc_def split: if_splits)
  from bestLoop_char[OF run] res obtain pre post where
    d: "candidates doc = pre @ i # post" "s = sc i" "\<forall>j\<in>set pre. sc j < sc i"
       "\<forall>j\<in>set post. sc j \<le> sc i" by auto
  have srt: "sorted_wrt (<) (pre @ i # post)" using candidates_sorted[of doc] d(1) by simp
  have "\<forall>j\<in>set (candidates doc). j < i \<longrightarrow> sc j < sc i"
    using before_in_prefix[OF srt] d(1,3) by auto
  moreover have "\<forall>j\<in>set (candidates doc). sc j \<le> sc i"
    using d(1,3,4) by (auto simp: less_imp_le)
  ultimately show ?thesis using d(1,2) res(1) by simp
qed

lemma findBest_None:
  assumes "findBestByFingerprint doc loc (Some fp) = None"
  defines "sc \<equiv> \<lambda>j. scoreMatch doc loc (Some fp) (deref doc (Some j))"
  shows "\<forall>j\<in>set (candidates doc). sc j < 12"
proof -
  obtain b s where run: "bestLoop sc (candidates doc) None 0 = (b, s)" by fastforce
  from assms(1) run have res: "s < 12 \<or> b = None"
    by (auto simp: findBestByFingerprint_def sc_def split: if_splits)
  from bestLoop_char[OF run] show ?thesis
  proof
    assume "b = None \<and> s = 0 \<and> (\<forall>j\<in>set (candidates doc). sc j \<le> 0)"
    then show ?thesis by auto
  next
    assume "\<exists>pre i post. candidates doc = pre @ i # post \<and> b = Some i \<and> s = sc i \<and> 0 < sc i
            \<and> (\<forall>j\<in>set pre. sc j < sc i) \<and> (\<forall>j\<in>set post. sc j \<le> sc i)"
    then obtain pre i post where d: "candidates doc = pre @ i # post" "b = Some i" "s = sc i"
       "\<forall>j\<in>set pre. sc j < sc i" "\<forall>j\<in>set post. sc j \<le> sc i" by blast
    with res have "sc i < 12" by simp
    with d show ?thesis by (auto simp: less_imp_le le_less_trans)
  qed
qed

text \<open>
  C1. The score of a candidate is the sum of the weights of the signals that match: tag 3,
  subtype 3, form action 2, name 10, test id 12, placeholder 5, autocomplete 3, aria-label
  6, normalized label 10. The candidates are the trackable controls of the document. The
  fingerprint fallback returns a candidate only when its score is at least 12; that
  candidate has the highest score of all candidates, and every candidate before it in
  document order has a strictly lower score, so the first one wins a tie. When no
  candidate reaches 12 (a best score of 11 included) nothing is returned.
\<close>

theorem findBestByFingerprint_highest_score:
  "scoreMatch doc loc (Some fp) (Some el) =
     3 * of_bool (tagName el = fp_tag fp)
   + 3 * of_bool (toLowerCase (attrOr el ''type'' []) = fp_type fp)
   + 2 * of_bool (fp_formAction fp \<noteq> [] \<and> formActionOf loc el = fp_formAction fp)
   + 10 * of_bool (fp_name fp \<noteq> [] \<and> attrOr el ''name'' [] = fp_name fp)
   + 12 * of_bool (fp_testid fp \<noteq> [] \<and> testIdOf el = fp_testid fp)
   + 5 * of_bool (fp_placeholder fp \<noteq> [] \<and> attrOr el ''placeholder'' [] = fp_placeholder fp)
   + 3 * of_bool (fp_autocomplete fp \<noteq> [] \<and> attrOr el ''autocomplete'' [] = fp_autocomplete fp)
   + 6 * of_bool (fp_ariaLabel fp \<noteq> [] \<and> attrOr el ''aria-label'' [] = fp_ariaLabel fp)
   + 10 * of_bool (fp_labelText fp \<noteq> [] \<and> getLabelText doc el \<noteq> []
                   \<and> getLabelText doc el = normalizeText (fp_labelText fp))
   \<and> set (candidates doc) = {i. isUsableControl (deref doc (Some i))}
   \<and> (case findBestByFingerprint doc loc (Some fp) of
         None \<Rightarrow> \<forall>j\<in>set (candidates doc). scoreMatch doc loc (Some fp) (deref doc (Some j)) < 12
       | Some i \<Rightarrow>
           i \<in> set (candidates doc) \<and> 12 \<le> scoreMatch doc loc (Some fp) (deref doc (Some i))
           \<and> (\<forall>j\<in>set (candidates doc).
                 scoreMatch doc loc (Some fp) (deref doc (Some j))
                   \<le> scoreMatch doc loc (Some fp) (deref doc (Some i))
                 \<and> (j < i \<longrightarrow> scoreMatch doc loc (Some fp) (deref doc (Some j))
                                < scoreMatch doc loc (Some fp) (deref doc (Some i)))))"
proof (intro conjI)
  show "set (candidates doc) = {i. isUsableControl (deref doc (Some i))}" by (rule set_candidates)
next
  show "case findBestByFingerprint doc loc (Some fp) of
         None \<Rightarrow> \<forall>j\<in>set (candidates doc). scoreMatch doc loc (Some fp) (deref doc (Some j)) < 12
       | Some i \<Rightarrow>
           i \<in> set (candidates doc) \<and> 12 \<le> scoreMatch doc loc (Some fp) (deref doc (Some i))
           \<and> (\<forall>j\<in>set (candidates doc).
                 scoreMatch doc loc (Some fp) (deref doc (Some j))
                   \<le> scoreMatch doc loc (Some fp) (deref doc (Some i))
                 \<and> (j < i \<longrightarrow> scoreMatch doc loc (Some fp) (deref doc (Some j))
                                < scoreMatch doc loc (Some fp) (deref doc (Some i))))"
  proof (cases "findBestByFingerprint doc loc (Some fp)")
    case None
    then show ?thesis using findBest_None[OF None] by simp
  next
    case (Some i)
    then show ?thesis using findBest_Some[OF Some] by simp
  qed
qed (rule scoreMatch_sum)


theorem findBestByFingerprint_highest_score_witness:
  "findBestByFingerprint demoDoc demoLoc (Some demoFp) = Some 1
   \<and> scoreMatch demoDoc demoLoc (Some demoFp) (deref demoDoc (Some 0)) = 11
   \<and> 12 \<le> scoreMatch demoDoc demoLoc (Some demoFp) (deref demoDoc (Some 1))
   \<and> scoreMatch demoDoc demoLoc (Some demoFp) (deref demoDoc (Some 2))
        \<le> scoreMatch demoDoc demoLoc (Some demoFp) (deref demoDoc (Some 1))"
proof -
  have best: "findBestByFingerprint demoDoc demoLoc (Some demoFp) = Some 1" by code_simp
  have cands: "candidates demoDoc = [0, 1, 2]" by code_simp
  have s0: "scoreMatch demoDoc demoLoc (Some demoFp) (deref demoDoc (Some 0)) = 11" by code_simp
  from findBestByFingerprint_highest_score[of demoDoc demoLoc demoFp "inputEl [] [] [] False"]
  show ?thesis by (simp add: best cands s0)
qed

lemma scoreMatch_empty_le:
  assumes "fp_name fp = []" "fp_testid fp = []" "fp_placeholder fp = []"
    "fp_autocomplete fp = []" "fp_ariaLabel fp = []" "fp_labelText fp = []"
  shows "scoreMatch doc loc (Some fp) elo \<le> 8"
proof (cases elo)
  case None
  then show ?thesis by (simp add: scoreMatch_def)
next
  case (Some el)
  then show ?thesis using assms by (simp add: scoreMatch_sum)
qed

text \<open>
  C10. When name, test id, placeholder, autocomplete, aria-label and label text of the
  stored fingerprint are all empty, no element scores more than 8 (tag 3, subtype 3, form
  action 2), and the fingerprint fallback selects no candidate in any document.
\<close>

theorem empty_fingerprint_never_matches:
  assumes "fp_name fp = []" "fp_testid fp = []" "fp_placeholder fp = []"
    "fp_autocomplete fp = []" "fp_ariaLabel fp = []" "fp_labelText fp = []"
  shows "scoreMatch doc loc (Some fp) elo \<le> 8 \<and> findBestByFingerprint doc loc (Some fp) = None"
proof -
  let ?sc = "\<lambda>j. scoreMatch doc loc (Some fp) (deref doc (Some j))"
  have le: "\<And>j. ?sc j \<le> 8" using assms by (rule scoreMatch_empty_le)
  obtain b s where run: "bestLoop ?sc (candidates doc) None 0 = (b, s)" by fastforce
  have "s \<le> 8" using bestLoop_char[OF run] le by auto
  then have "findBestByFingerprint doc loc (Some fp) = None"
    using run by (simp add: findBestByFingerprint_def)
  then show ?thesis using scoreMatch_empty_le[OF assms] by simp
qed


theorem empty_fingerprint_never_matches_witness:
  "fp_name bareFp = [] \<and> fp_labelText bareFp = []
   \<and> scoreMatch demoDoc demoLoc (Some bareFp) (deref demoDoc (Some 0)) \<le> 8
   \<and> findBestByFingerprint demoDoc demoLoc (Some bareFp) = None"
  using empty_fingerprint_never_matches[of bareFp demoDoc demoLoc "deref demoDoc (Some 0)"]
  by (simp add: bareFp_def)

section \<open>Properties of the value codec\<close>

lemma findIndex_None: "(findIndex P xs = None) = (\<forall>x\<in>set xs. \<not> P x)"
  by (induction xs) auto

lemma findIndex_Some:
  "findIndex P xs = Some i \<Longrightarrow> i < length xs \<and> P (xs ! i) \<and> (\<forall>x\<in>set (take i xs). \<not> P x)"
proof (induction xs arbitrary: i)
  case Nil
  then show ?case by simp
next
  case (Cons x xs)
  show ?case
  proof (cases "P x")
    case True
    with Cons.prems show ?thesis by simp
  next
    case False
    with Cons.prems obtain k where k: "findIndex P xs = Some k" "i = Suc k" by auto
    from Cons.IH[OF k(1)] False k(2) show ?thesis by simp
  qed
qed

lemma findIndex_first:
  "i < length xs \<Longrightarrow> P (xs ! i) \<Longrightarrow> \<forall>x\<in>set (take i xs). \<not> P x \<Longrightarrow> findIndex P xs = Some i"
proof (induction xs arbitrary: i)
  case Nil
  then show ?case by simp
next
  case (Cons x xs)
  show ?case
  proof (cases i)
    case 0
    with Cons.prems show ?thesis by simp
  next
    case (Suc k)
    with Cons.prems have "findIndex P xs = Some k" "\<not> P x"
      by (auto intro: Cons.IH)
    with Suc show ?thesis by simp
  qed
qed

lemma length_deselectAll [simp]: "length (deselectAll opts) = length opts"
  by (simp add: deselectAll_def)

lemma length_selectAt [simp]: "length (selectAt i opts) = length opts"
  by (simp add: selectAt_def)

lemma nth_deselectAll [simp]:
  "j < length opts \<Longrightarrow> deselectAll opts ! j = (opts ! j)\<lparr>opt_selected := False\<rparr>"
  by (simp add: deselectAll_def)

lemma nth_selectAt:
  "j < length opts \<Longrightarrow>
     selectAt i opts ! j = (if j = i then (opts ! j)\<lparr>opt_selected := True\<rparr> else opts ! j)"
  by (simp add: selectAt_def)

lemma in_take: "j < i \<Longrightarrow> i \<le> length xs \<Longrightarrow> xs ! j \<in> set (take i xs)"
  by (metis in_set_conv_nth length_take min.absorb2 nth_take)

lemma in_drop:
  assumes "i \<le> j" "j < length xs"
  shows "xs ! j \<in> set (drop i xs)"
proof -
  have "drop i xs ! (j - i) = xs ! j" using assms by simp
  moreover have "j - i < length (drop i xs)" using assms by simp
  ultimately show ?thesis by (metis nth_mem)
qed

lemma canonical_select_fixed:
  assumes "findIndex opt_selected opts = Some i"
    and "\<forall>opt\<in>set (drop (Suc i) opts). \<not> opt_selected opt"
  shows "selectAt i (deselectAll opts) = opts"
proof -
  from findIndex_Some[OF assms(1)] have i: "i < length opts" "opt_selected (opts ! i)"
    "\<forall>x\<in>set (take i opts). \<not> opt_selected x" by auto
  show ?thesis
  proof (rule nth_equalityI)
    show "length (selectAt i (deselectAll opts)) = length opts" by simp
  next
    fix j assume "j < length (selectAt i (deselectAll opts))"
    then have j: "j < length opts" by simp
    show "selectAt i (deselectAll opts) ! j = opts ! j"
    proof (cases "j = i")
      case True
      with i show ?thesis by (simp add: nth_selectAt)
    next
      case False
      have "\<not> opt_selected (opts ! j)"
      proof (cases "j < i")
        case True
        then have "opts ! j \<in> set (take i opts)" using i(1) by (simp add: in_take)
        with i(3) show ?thesis by simp
      next
        case False
        with \<open>j \<noteq> i\<close> have "Suc i \<le> j" by simp
        then have "opts ! j \<in> set (drop (Suc i) opts)" using j by (rule in_drop)
        with assms(2) show ?thesis by simp
      qed
      with False j show ?thesis by (simp add: nth_selectAt)
    qed
  qed
qed

lemma deselect_fixed: "\<forall>x\<in>set opts. \<not> opt_selected x \<Longrightarrow> deselectAll opts = opts"
  by (induction opts) (auto simp: deselectAll_def)

lemma multi_fixed:
  "map (\<lambda>(opt, i). opt\<lparr>opt_selected := (int i \<in> set (map int (filter (\<lambda>i. opt_selected (opts ! i)) [0..<length opts])))\<rparr>)
     (zip opts [0..<length opts]) = opts"
proof (rule nth_equalityI)
  show "length (map (\<lambda>(opt, i). opt\<lparr>opt_selected := (int i \<in> set (map int (filter (\<lambda>i. opt_selected (opts ! i)) [0..<length opts])))\<rparr>)
     (zip opts [0..<length opts])) = length opts" by simp
next
  fix j
  assume "j < length (map (\<lambda>(opt, i). opt\<lparr>opt_selected := (int i \<in> set (map int (filter (\<lambda>i. opt_selected (opts ! i)) [0..<length opts])))\<rparr>)
     (zip opts [0..<length opts]))"
  then have j: "j < length opts" by simp
  have "(int j \<in> set (map int (filter (\<lambda>i. opt_selected (opts ! i)) [0..<length opts])))
          = opt_selected (opts ! j)"
    using j by auto
  with j show "map (\<lambda>(opt, i). opt\<lparr>opt_selected := (int i \<in> set (map int (filter (\<lambda>i. opt_selected (opts ! i)) [0..<length opts])))\<rparr>)
     (zip opts [0..<length opts]) ! j = opts ! j" by simp
qed

lemma read_multi:
  "tagName el = ''SELECT'' \<Longrightarrow> multiple el \<Longrightarrow>
     readControlValue el =
       Some (SelectMultiple
         (Some (map int (filter (\<lambda>i. opt_selected (el_options el ! i)) [0..<length (el_options el)])))
         (map (\<lambda>i. opt_value (el_options el ! i))
            (filter (\<lambda>i. opt_selected (el_options el ! i)) [0..<length (el_options el)])))"
  by (simp add: readControlValue_def Let_def)

lemma write_multi:
  "tagName el = ''SELECT'' \<Longrightarrow> multiple el \<Longrightarrow>
     writeControlValue el (Some (SelectMultiple (Some xs) vs)) =
       Inr (el\<lparr>el_options :=
              map (\<lambda>(opt, i). opt\<lparr>opt_selected := (int i \<in> set xs)\<rparr>)
                (zip (el_options el) [0..<length (el_options el)])\<rparr>)"
  by (simp add: writeControlValue_def Let_def)

lemma usable_not_file:
  "isUsableControl (Some el) \<Longrightarrow> tagName el = ''INPUT'' \<Longrightarrow> inputType el \<noteq> ''file''"
  by (auto simp: isUsableControl_def inputType_def Let_def split: if_splits)

lemma roundtrip_noop:
  assumes u: "isUsableControl (Some el)"
    and c: "tagName el = ''SELECT'' \<and> \<not> multiple el \<longrightarrow> selectionCanonical el"
  shows "writeControlValue el (readControlValue el) = Inr el"
proof -
  consider (inp) "tagName el = ''INPUT''" | (ta) "tagName el = ''TEXTAREA''"
    | (sm) "tagName el = ''SELECT''" "multiple el" | (ss) "tagName el = ''SELECT''" "\<not> multiple el"
    using usable_tagName[OF u] by auto
  then show ?thesis
  proof cases
    case inp
    with usable_not_file[OF u] show ?thesis
      by (simp add: writeControlValue_def readControlValue_def Let_def setValue_def getValue_def
          inputType_def)
  next
    case ta
    then show ?thesis
      by (simp add: writeControlValue_def readControlValue_def Let_def setValue_def getValue_def)
  next
    case sm
    have "writeControlValue el (readControlValue el) = Inr (el\<lparr>el_options := el_options el\<rparr>)"
      by (simp only: read_multi[OF sm] write_multi[OF sm] multi_fixed)
    then show ?thesis by simp
  next
    case ss
    with c have can: "selectionCanonical el" by simp
    show ?thesis
    proof (cases "findIndex opt_selected (el_options el)")
      case None
      with can have nov: "\<forall>opt\<in>set (el_options el). opt_value opt \<noteq> []"
        by (simp add: selectionCanonical_def)
      then have "findIndex (\<lambda>opt. opt_value opt = []) (el_options el) = None"
        by (simp add: findIndex_None)
      moreover have "deselectAll (el_options el) = el_options el"
        using None by (simp add: findIndex_None deselect_fixed)
      ultimately show ?thesis using ss None
        by (simp add: writeControlValue_def readControlValue_def Let_def setValue_def getValue_def)
    next
      case (Some i)
      with can have d: "\<forall>opt\<in>set (drop (Suc i) (el_options el)). \<not> opt_selected opt"
        and t: "\<forall>opt\<in>set (take i (el_options el)). opt_value opt \<noteq> opt_value (el_options el ! i)"
        by (simp_all add: selectionCanonical_def)
      from findIndex_Some[OF Some] have i: "i < length (el_options el)" by simp
      have "findIndex (\<lambda>opt. opt_value opt = opt_value (el_options el ! i)) (el_options el) = Some i"
        using i t by (intro findIndex_first) auto
      moreover have "selectAt i (deselectAll (el_options el)) = el_options el"
        using Some d by (rule canonical_select_fixed)
      ultimately show ?thesis using ss Some
        by (simp add: writeControlValue_def readControlValue_def Let_def setValue_def getValue_def)
    qed
  qed
qed

text \<open>
  C3 as stated fails: in a single select whose selected option shares its value with an
  earlier option, writing back the value just read moves the selection to the earlier
  option.
\<close>

theorem roundtrip_counterexample:
  "isUsableControl (Some dupSelect)
   \<and> writeControlValue dupSelect (readControlValue dupSelect) \<noteq> Inr dupSelect"
  by code_simp


lemma values_deselectAll [simp]: "map opt_value (deselectAll opts) = map opt_value opts"
  by (simp add: deselectAll_def)

lemma values_selectAt: "map opt_value (selectAt i opts) = map opt_value opts"
  by (rule nth_equalityI) (simp_all add: nth_selectAt)

lemma set_deselectAll: "x \<in> set (deselectAll opts) \<Longrightarrow> \<not> opt_selected x"
  by (auto simp: deselectAll_def)

lemma value_deselectAll: "x \<in> set (deselectAll opts) \<Longrightarrow> \<exists>y\<in>set opts. opt_value y = opt_value x"
  by (auto simp: deselectAll_def)

lemma selectAt_canonical:
  assumes k: "findIndex (\<lambda>opt. opt_value opt = v) opts = Some k"
  defines "opts' \<equiv> selectAt k (deselectAll opts)"
  shows "findIndex opt_selected opts' = Some k"
    and "\<forall>opt\<in>set (drop (Suc k) opts'). \<not> opt_selected opt"
    and "\<forall>opt\<in>set (take k opts'). opt_value opt \<noteq> opt_value (opts' ! k)"
proof -
  from findIndex_Some[OF k] have kk: "k < length opts" "opt_value (opts ! k) = v"
    "\<forall>x\<in>set (take k opts). opt_value x \<noteq> v" by auto
  have len: "length opts' = length opts" by (simp add: opts'_def)
  have nth: "\<And>j. j < length opts \<Longrightarrow>
      opts' ! j = (if j = k then (opts ! j)\<lparr>opt_selected := True\<rparr> else (opts ! j)\<lparr>opt_selected := False\<rparr>)"
    by (simp add: opts'_def nth_selectAt)
  have tk: "\<forall>x\<in>set (take k opts'). \<not> opt_selected x \<and> opt_value x \<noteq> v"
  proof
    fix x assume "x \<in> set (take k opts')"
    then obtain j where j: "j < k" "x = opts' ! j"
      using kk(1) len by (auto simp: in_set_conv_nth)
    with kk(1) have "opts ! j \<in> set (take k opts)" by (simp add: in_take)
    with kk(3) have "opt_value (opts ! j) \<noteq> v" by simp
    with j kk(1) nth[of j] show "\<not> opt_selected x \<and> opt_value x \<noteq> v" by simp
  qed
  show "findIndex opt_selected opts' = Some k"
    using kk(1) len nth[of k] tk by (intro findIndex_first) auto
  show "\<forall>opt\<in>set (drop (Suc k) opts'). \<not> opt_selected opt"
  proof
    fix x assume "x \<in> set (drop (Suc k) opts')"
    then obtain j where j: "Suc k \<le> j" "j < length opts'" "x = opts' ! j"
      by (auto simp: in_set_conv_nth) (metis add_Suc le_add1 less_diff_conv add.commute)
    with len nth[of j] show "\<not> opt_selected x" by simp
  qed
  show "\<forall>opt\<in>set (take k opts'). opt_value opt \<noteq> opt_value (opts' ! k)"
    using tk kk(1,2) nth[of k] by simp
qed

lemma usable_options_update:
  "isUsableControl (Some (el\<lparr>el_options := os\<rparr>)) = isUsableControl (Some el)"
  by (simp add: isUsableControl_def attrOr_def getAttribute_def)

lemma single_select_written:
  assumes ss: "tagName el = ''SELECT''" "\<not> multiple el"
  shows "\<exists>el'. writeControlValue el (readControlValue el) = Inr el' \<and> tagName el' = ''SELECT''
           \<and> \<not> multiple el' \<and> selectionCanonical el'
           \<and> isUsableControl (Some el') = isUsableControl (Some el)
           \<and> el' = el\<lparr>el_options := el_options el'\<rparr>
           \<and> map opt_value (el_options el') = map opt_value (el_options el)
           \<and> findIndex opt_selected (el_options el')
                = findIndex (\<lambda>opt. opt_value opt = getValue el) (el_options el)"
proof (cases "findIndex (\<lambda>opt. opt_value opt = getValue el) (el_options el)")
  case None
  let ?el' = "el\<lparr>el_options := deselectAll (el_options el)\<rparr>"
  have w: "writeControlValue el (readControlValue el) = Inr ?el'"
    using ss None by (simp add: writeControlValue_def readControlValue_def Let_def setValue_def)
  have nosel: "findIndex opt_selected (el_options el) = None"
  proof (cases "findIndex opt_selected (el_options el)")
    case (Some i)
    from findIndex_Some[OF Some] have "el_options el ! i \<in> set (el_options el)" by simp
    moreover have "getValue el = opt_value (el_options el ! i)"
      using ss Some by (simp add: getValue_def)
    ultimately show ?thesis using None by (auto simp: findIndex_None)
  qed simp
  then have "getValue el = []" using ss by (simp add: getValue_def)
  with None have "\<forall>x\<in>set (el_options el). opt_value x \<noteq> []" by (simp add: findIndex_None)
  then have "\<forall>x\<in>set (deselectAll (el_options el)). opt_value x \<noteq> []"
    using value_deselectAll by metis
  moreover have none': "findIndex opt_selected (deselectAll (el_options el)) = None"
    using set_deselectAll by (auto simp: findIndex_None)
  ultimately have "selectionCanonical ?el'" by (simp add: selectionCanonical_def)
  moreover have "findIndex opt_selected (el_options ?el')
      = findIndex (\<lambda>opt. opt_value opt = getValue el) (el_options el)"
    using None none' by simp
  ultimately show ?thesis using w ss by (simp add: usable_options_update)
next
  case (Some k)
  let ?el' = "el\<lparr>el_options := selectAt k (deselectAll (el_options el))\<rparr>"
  have w: "writeControlValue el (readControlValue el) = Inr ?el'"
    using ss Some by (simp add: writeControlValue_def readControlValue_def Let_def setValue_def)
  have k': "findIndex (\<lambda>opt. opt_value opt = getValue el) (el_options el) = Some k"
    using Some .
  have "selectionCanonical ?el'"
    using selectAt_canonical[OF k'] by (simp add: selectionCanonical_def)
  moreover have "findIndex opt_selected (el_options ?el')
      = findIndex (\<lambda>opt. opt_value opt = getValue el) (el_options el)"
    using selectAt_canonical(1)[OF k'] Some by simp
  moreover have "map opt_value (el_options ?el') = map opt_value (el_options el)"
    by (simp add: values_selectAt)
  ultimately show ?thesis using w ss by (simp add: usable_options_update)
qed

text \<open>
  C3 (as amended). For every trackable control, writing back the value just read succeeds
  and is idempotent: doing it again changes nothing more. It leaves the element unchanged
  for every checkbox, radio, text-like input, textarea and multiple select, and for every
  single select in canonical selection. On any single select it changes nothing but the
  selection, which moves to the first option that carries the value read (to no option
  when none carries it) and is canonical afterwards.
\<close>

theorem roundtrip_idempotent_noop:
  assumes u: "isUsableControl (Some el)"
  shows "\<exists>el'. writeControlValue el (readControlValue el) = Inr el'
           \<and> writeControlValue el' (readControlValue el') = Inr el'
           \<and> ((tagName el = ''SELECT'' \<and> \<not> multiple el \<longrightarrow> selectionCanonical el) \<longrightarrow> el' = el)
           \<and> (tagName el = ''SELECT'' \<and> \<not> multiple el \<longrightarrow>
                 el' = el\<lparr>el_options := el_options el'\<rparr>
                 \<and> map opt_value (el_options el') = map opt_value (el_options el)
                 \<and> findIndex opt_selected (el_options el')
                      = findIndex (\<lambda>opt. opt_value opt = getValue el) (el_options el)
                 \<and> selectionCanonical el')"
proof (cases "tagName el = ''SELECT'' \<and> \<not> multiple el")
  case True
  then obtain el' where e: "writeControlValue el (readControlValue el) = Inr el'"
    "tagName el' = ''SELECT''" "\<not> multiple el'" "selectionCanonical el'"
    "isUsableControl (Some el') = isUsableControl (Some el)"
    and m: "el' = el\<lparr>el_options := el_options el'\<rparr>"
    "map opt_value (el_options el') = map opt_value (el_options el)"
    "findIndex opt_selected (el_options el')
       = findIndex (\<lambda>opt. opt_value opt = getValue el) (el_options el)"
    using single_select_written[of el] by blast
  from e(5) u have u': "isUsableControl (Some el')" by simp
  have again: "writeControlValue el' (readControlValue el') = Inr el'"
    using u' e(4) by (intro roundtrip_noop) simp_all
  have "selectionCanonical el \<longrightarrow> el' = el"
  proof
    assume "selectionCanonical el"
    then have "writeControlValue el (readControlValue el) = Inr el"
      using u by (intro roundtrip_noop) simp_all
    with e(1) show "el' = el" by simp
  qed
  then have noop: "(tagName el = ''SELECT'' \<and> \<not> multiple el \<longrightarrow> selectionCanonical el) \<longrightarrow> el' = el"
    using True by blast
  have moved: "tagName el = ''SELECT'' \<and> \<not> multiple el \<longrightarrow>
                 el' = el\<lparr>el_options := el_options el'\<rparr>
                 \<and> map opt_value (el_options el') = map opt_value (el_options el)
                 \<and> findIndex opt_selected (el_options el')
                      = findIndex (\<lambda>opt. opt_value opt = getValue el) (el_options el)
                 \<and> selectionCanonical el'"
    using m e(4) by (intro impI conjI)
  from e(1) again noop moved show ?thesis by (intro exI[of _ el'] conjI)
next
  case False
  then have "tagName el = ''SELECT'' \<and> \<not> multiple el \<longrightarrow> selectionCanonical el" by blast
  from roundtrip_noop[OF u this] False show ?thesis by auto
qed

theorem roundtrip_idempotent_noop_witness:
  "isUsableControl (Some sizeSelect) \<and> selectionCanonical sizeSelect
   \<and> tagName sizeSelect = ''SELECT'' \<and> \<not> multiple sizeSelect
   \<and> writeControlValue sizeSelect (readControlValue sizeSelect) = Inr sizeSelect
   \<and> findIndex (\<lambda>opt. opt_value opt = getValue sizeSelect) (el_options sizeSelect) = Some 1
   \<and> findIndex opt_selected (el_options sizeSelect) = Some 1"
proof -
  have u: "isUsableControl (Some sizeSelect)" by code_simp
  have c: "selectionCanonical sizeSelect" by code_simp
  have t: "tagName sizeSelect = ''SELECT'' \<and> \<not> multiple sizeSelect" by code_simp
  have f: "findIndex (\<lambda>opt. opt_value opt = getValue sizeSelect) (el_options sizeSelect) = Some 1"
    by code_simp
  from roundtrip_idempotent_noop[OF u] obtain el' where
    w: "writeControlValue sizeSelect (readControlValue sizeSelect) = Inr el'"
    and n: "(tagName sizeSelect = ''SELECT'' \<and> \<not> multiple sizeSelect \<longrightarrow> selectionCanonical sizeSelect)
              \<longrightarrow> el' = sizeSelect"
    and m: "tagName sizeSelect = ''SELECT'' \<and> \<not> multiple sizeSelect \<longrightarrow>
              findIndex opt_selected (el_options el')
                = findIndex (\<lambda>opt. opt_value opt = getValue sizeSelect) (el_options sizeSelect)"
    by blast
  from n c have same: "el' = sizeSelect" by simp
  from m t same f have "findIndex opt_selected (el_options sizeSelect) = Some 1" by simp
  with u c t w same f show ?thesis by simp
qed

text \<open>Apart from a text value written to an input of another subtype, a value whose
  shape differs from the kind of the element leaves the element as it is.\<close>

lemma read_input:
  "tagName el = ''INPUT'' \<Longrightarrow>
     readControlValue el =
       (if inputType el = ''checkbox'' then Some (Checkbox (checked el))
        else if inputType el = ''radio'' then Some (Radio (checked el) (getValue el))
        else Some (Input (Some (getValue el))))"
  by (simp add: readControlValue_def inputType_def Let_def)

lemma write_input:
  "tagName el = ''INPUT'' \<Longrightarrow>
     writeControlValue el (Some d) =
       (if inputType el = ''checkbox'' \<and> cv_t d = ''checkbox'' then Inr (el\<lparr>checked := cv_checked d\<rparr>)
        else if inputType el = ''radio'' \<and> cv_t d = ''radio'' then Inr (el\<lparr>checked := cv_checked d\<rparr>)
        else if cv_t d = ''input'' then setValue el (case cv_value d of None \<Rightarrow> [] | Some v \<Rightarrow> v)
        else Inr el)"
  by (simp add: writeControlValue_def inputType_def Let_def)

lemma write_other:
  "tagName el \<noteq> ''INPUT'' \<Longrightarrow>
     writeControlValue el (Some d) =
       (if tagName el = ''TEXTAREA'' \<and> cv_t d = ''textarea'' then
          setValue el (case cv_value d of None \<Rightarrow> [] | Some v \<Rightarrow> v)
        else if tagName el = ''SELECT'' \<and> multiple el \<and> cv_t d = ''select-multiple'' then
          Inr (el\<lparr>el_options :=
                 map (\<lambda>(opt, i). opt\<lparr>opt_selected :=
                        (int i \<in> set (case cv_selectedIndexes d of None \<Rightarrow> [] | Some is \<Rightarrow> is))\<rparr>)
                   (zip (el_options el) [0..<length (el_options el)])\<rparr>)
        else if tagName el = ''SELECT'' \<and> \<not> multiple el \<and> cv_t d = ''select'' then
          (case cv_value d of
             Some v \<Rightarrow> setValue el v
           | None \<Rightarrow> (case cv_selectedIndex d of Some n \<Rightarrow> Inr (setSelectedIndex el n) | None \<Rightarrow> Inr el))
        else Inr el)"
  by (simp add: writeControlValue_def Let_def)

lemma read_kind:
  "map_option cv_t (readControlValue el) =
     (if tagName el = ''INPUT'' then
        Some (if inputType el = ''checkbox'' then ''checkbox''
              else if inputType el = ''radio'' then ''radio'' else ''input'')
      else if tagName el = ''TEXTAREA'' then Some ''textarea''
      else if tagName el = ''SELECT'' then Some (if multiple el then ''select-multiple'' else ''select'')
      else None)"
  by (simp add: readControlValue_def inputType_def Let_def)

lemma mismatch_noop:
  assumes "map_option cv_t (readControlValue el) \<noteq> Some (cv_t d)"
    and "\<not> (tagName el = ''INPUT'' \<and> cv_t d = ''input'')"
  shows "writeControlValue el (Some d) = Inr el"
proof (cases "tagName el = ''INPUT''")
  case True
  with assms have "cv_t d \<noteq> ''input''"
    "inputType el = ''checkbox'' \<longrightarrow> cv_t d \<noteq> ''checkbox''"
    "inputType el = ''radio'' \<longrightarrow> cv_t d \<noteq> ''radio''"
    by (auto simp: read_kind)
  then show ?thesis unfolding write_input[OF True] by auto
next
  case False
  with assms have "tagName el = ''TEXTAREA'' \<longrightarrow> cv_t d \<noteq> ''textarea''"
    "tagName el = ''SELECT'' \<and> multiple el \<longrightarrow> cv_t d \<noteq> ''select-multiple''"
    "tagName el = ''SELECT'' \<and> \<not> multiple el \<longrightarrow> cv_t d \<noteq> ''select''"
    by (auto simp: read_kind)
  then show ?thesis unfolding write_other[OF False] by auto
qed

text \<open>
  C4. A checkbox receives a stored text value: the element kind is \<open>checkbox\<close>, the
  shape of the value is \<open>input\<close>, and \<open>writeControlValue\<close> overwrites the \<open>value\<close>
  of the checkbox instead of leaving the element alone.
\<close>

theorem checkbox_overwritten_by_text_value:
  "isUsableControl (Some agreeBox)
   \<and> readControlValue agreeBox = Some (Checkbox False)
   \<and> writeControlValue agreeBox (Some (Input (Some ''hello''))) = Inr (agreeBox\<lparr>el_value := ''hello''\<rparr>)
   \<and> agreeBox\<lparr>el_value := ''hello''\<rparr> \<noteq> agreeBox"
  by code_simp

section \<open>Properties of the restore engine\<close>

lemma lower_text: "toLowerCase ''text'' = ''text''" by code_simp
lemma lower_radio: "toLowerCase ''radio'' = ''radio''" by code_simp

lemma radio_typeProp:
  assumes "inputType el = ''radio''"
  shows "toLowerCase (typeProp el) = ''radio''"
proof -
  have ne: "toLowerCase ''text'' \<noteq> ''radio''" by (simp add: lower_text)
  from assms ne obtain v where v: "getAttribute el ''type'' = Some v" "v \<noteq> []" "toLowerCase v = ''radio''"
    by (auto simp: inputType_def attrOr_def orElse_def split: option.splits if_splits)
  then have "typeProp el = ''radio''"
    by (simp add: typeProp_def attrOr_def orElse_def)
  then show ?thesis by (simp add: lower_radio)
qed

lemma usable_radio:
  "tagName el = ''INPUT'' \<Longrightarrow> inputType el = ''radio'' \<Longrightarrow> isUsableControl (Some el) = (\<not> disabled el)"
  by (simp add: isUsableControl_def inputType_def)

lemma write_radio:
  "tagName el = ''INPUT'' \<Longrightarrow> inputType el = ''radio'' \<Longrightarrow>
     writeControlValue el (Some (Radio c v)) = Inr (el\<lparr>checked := c\<rparr>)"
  by (simp add: writeControlValue_def inputType_def)

lemma checksRadio_radio:
  "tagName el = ''INPUT'' \<Longrightarrow> inputType el = ''radio'' \<Longrightarrow> checksRadio el (Some (Radio c v)) = c"
  by (simp add: checksRadio_def isRadio_def inputType_def)

lemma apply_radio:
  assumes "deref doc (Some i) = Some el" "tagName el = ''INPUT''" "inputType el = ''radio''"
    and "fr_value item = Some (Radio c v)"
  shows "applyToElement doc (Some i) item =
           (if \<not> disabled el \<and> getValue el = v
            then Inr (True, dispatchInputChange i
                   (if c then uncheckGroup i (doc\<lparr>doc_elements := (doc_elements doc)[i := el\<lparr>checked := c\<rparr>]\<rparr>)
                    else doc\<lparr>doc_elements := (doc_elements doc)[i := el\<lparr>checked := c\<rparr>]\<rparr>))
            else Inr (False, doc))"
  using assms radio_typeProp[OF assms(3)] usable_radio[OF assms(2,3)] write_radio[OF assms(2,3)]
    checksRadio_radio[OF assms(2,3)]
  by (simp add: applyToElement_def Let_def)

lemma uncheckGroup_events [simp]: "doc_events (uncheckGroup i d) = doc_events d"
  by (simp add: uncheckGroup_def split: option.splits)

lemma uncheckGroup_deref:
  "deref (uncheckGroup i d) (Some j) = deref d (Some j)
   \<or> deref (uncheckGroup i d) (Some j) = map_option (\<lambda>e. e\<lparr>checked := False\<rparr>) (deref d (Some j))"
  by (cases "deref d (Some i)") (auto simp: uncheckGroup_def deref_def)

lemma apply_shape:
  assumes "applyToElement doc (Some i) item = Inr (ok, doc')"
  shows "doc' = doc
       \<or> (\<exists>el'. doc' = dispatchInputChange i (doc\<lparr>doc_elements := (doc_elements doc)[i := el']\<rparr>))
       \<or> (\<exists>el'. doc' = dispatchInputChange i (uncheckGroup i (doc\<lparr>doc_elements := (doc_elements doc)[i := el']\<rparr>)))"
  using assms
  by (auto simp: applyToElement_def Let_def split: option.splits if_splits sum.splits)

lemma apply_other:
  assumes "applyToElement doc r item = Inr (ok, doc')" "r \<noteq> Some j"
  shows "(deref doc' (Some j) = deref doc (Some j)
          \<or> deref doc' (Some j) = map_option (\<lambda>e. e\<lparr>checked := False\<rparr>) (deref doc (Some j)))
         \<and> eventsAt j doc' = eventsAt j doc"
proof (cases r)
  case None
  with assms show ?thesis by (simp add: applyToElement_def)
next
  case (Some i)
  with assms(2) have ij: "i \<noteq> j" by simp
  from assms(1) Some have ap: "applyToElement doc (Some i) item = Inr (ok, doc')" by simp
  from apply_shape[OF ap] show ?thesis
  proof (elim disjE exE)
    assume "doc' = doc" then show ?thesis by simp
  next
    fix el' assume "doc' = dispatchInputChange i (doc\<lparr>doc_elements := (doc_elements doc)[i := el']\<rparr>)"
    with ij show ?thesis by (simp add: dispatchInputChange_def deref_def eventsAt_def)
  next
    fix el'
    let ?w = "doc\<lparr>doc_elements := (doc_elements doc)[i := el']\<rparr>"
    assume d: "doc' = dispatchInputChange i (uncheckGroup i ?w)"
    have w: "deref ?w (Some j) = deref doc (Some j)" using ij by (simp add: deref_def)
    have "deref doc' (Some j) = deref (uncheckGroup i ?w) (Some j)"
      using d by (simp add: dispatchInputChange_def deref_def)
    with uncheckGroup_deref[of i ?w j] w
    have "deref doc' (Some j) = deref doc (Some j)
          \<or> deref doc' (Some j) = map_option (\<lambda>e. e\<lparr>checked := False\<rparr>) (deref doc (Some j))"
      by simp
    moreover have "eventsAt j doc' = eventsAt j doc"
      using d ij by (simp add: dispatchInputChange_def eventsAt_def)
    ultimately show ?thesis by simp
  qed
qed

lemma unchecked_radio:
  "tagName (el\<lparr>checked := b\<rparr>) = tagName el" "inputType (el\<lparr>checked := b\<rparr>) = inputType el"
  "tagName el = ''INPUT'' \<Longrightarrow> getValue (el\<lparr>checked := b\<rparr>) = getValue el"
  by (simp_all add: inputType_def attrOr_def getAttribute_def getValue_def)

lemma apply_keeps:
  assumes el: "sameButUnchecked el j doc" "tagName el = ''INPUT''" "inputType el = ''radio''"
    and item: "fr_value item = Some (Radio c v)" and ne: "getValue el \<noteq> v"
    and ap: "applyToElement doc r item = Inr (ok, doc')"
  shows "sameButUnchecked el j doc' \<and> eventsAt j doc' = eventsAt j doc"
proof (cases "r = Some j")
  case True
  from el(1) obtain e where e: "deref doc (Some j) = Some e" "e = el \<or> e = el\<lparr>checked := False\<rparr>"
    by (auto simp: sameButUnchecked_def)
  from e(2) el(2,3) ne have r: "tagName e = ''INPUT''" "inputType e = ''radio''" "getValue e \<noteq> v"
    by (auto simp: unchecked_radio)
  from ap True apply_radio[OF e(1) r(1,2) item] r(3) have "doc' = doc" by simp
  with el(1) show ?thesis by simp
next
  case False
  from apply_other[OF ap False] el(1) show ?thesis
    by (auto simp: sameButUnchecked_def)
qed

lemma applyAll_keeps:
  assumes "tagName el = ''INPUT''" "inputType el = ''radio''"
    and "fr_value item = Some (Radio c v)" and "getValue el \<noteq> v"
  shows "sameButUnchecked el j doc \<Longrightarrow> applyAll doc is item any = (any', doc') \<Longrightarrow>
         sameButUnchecked el j doc' \<and> eventsAt j doc' = eventsAt j doc"
proof (induction "is" arbitrary: doc any)
  case Nil
  then show ?case by simp
next
  case (Cons i rest)
  show ?case
  proof (cases "applyToElement doc (Some i) item")
    case (Inl e)
    with Cons.prems show ?thesis by simp
  next
    case (Inr p)
    obtain ok d1 where p: "p = (ok, d1)" by (cases p)
    from Inr p have ap: "applyToElement doc (Some i) item = Inr (ok, d1)" by simp
    from apply_keeps[OF Cons.prems(1) assms(1,2,3,4) ap]
    have k: "sameButUnchecked el j d1" "eventsAt j d1 = eventsAt j doc" by simp_all
    from Cons.prems(2) ap have "applyAll d1 rest item (if ok then True else any) = (any', doc')" by simp
    from Cons.IH[OF k(1) this] k(2) show ?thesis by simp
  qed
qed

lemma restoreItem_keeps:
  assumes el: "sameButUnchecked el j doc" "tagName el = ''INPUT''" "inputType el = ''radio''"
    and item: "fr_value item = Some (Radio c v)" and ne: "getValue el \<noteq> v"
    and run: "restoreItem loc doc item = (err, ok, doc')"
  shows "sameButUnchecked el j doc' \<and> eventsAt j doc' = eventsAt j doc"
proof -
  define byName where "byName =
            (case fr_id item of
               None \<Rightarrow> (False, doc)
             | Some s \<Rightarrow>
                (case st_tag s of
                   None \<Rightarrow> (False, doc)
                 | Some t \<Rightarrow>
                     if st_kind s = ''name'' \<and> st_value s \<noteq> [] \<and> t \<noteq> [] then
                       applyAll doc
                         (filter (\<lambda>i. isUsableControl (deref doc (Some i)))
                            (querySelectorAll doc (matchesTagName t (st_value s))))
                         item False
                     else (False, doc)))"
  obtain any d1 where b: "byName = (any, d1)" by (cases byName)
  have k1: "sameButUnchecked el j d1 \<and> eventsAt j d1 = eventsAt j doc"
    using b el(1) applyAll_keeps[OF el(2,3) item ne el(1)]
    by (auto simp: byName_def split: option.splits if_splits)
  have run': "(if any then (None, True, d1)
           else
             (case applyToElement d1 (findElementByStableId d1 (fr_id item)) item of
                Inl e \<Rightarrow> (Some e, False, d1)
              | Inr (ok, doc2) \<Rightarrow>
                  if ok then (None, True, doc2)
                  else
                    (case applyToElement doc2 (findBestByFingerprint doc2 loc (fr_fingerprint item)) item of
                       Inl e \<Rightarrow> (Some e, False, doc2)
                     | Inr (ok', doc3) \<Rightarrow> (None, ok', doc3)))) = (err, ok, doc')"
    using run b unfolding restoreItem_def Let_def byName_def[symmetric] by simp
  show ?thesis
  proof (cases any)
    case True
    with run' k1 show ?thesis by simp
  next
    case False
    show ?thesis
    proof (cases "applyToElement d1 (findElementByStableId d1 (fr_id item)) item")
      case (Inl e)
      with run' False k1 show ?thesis by simp
    next
      case (Inr p)
      obtain ok2 d2 where p: "p = (ok2, d2)" by (cases p)
      from Inr p have ap: "applyToElement d1 (findElementByStableId d1 (fr_id item)) item = Inr (ok2, d2)" by simp
      from k1 have e1: "sameButUnchecked el j d1" by simp
      from apply_keeps[OF e1 el(2,3) item ne ap] k1
      have k2: "sameButUnchecked el j d2" "eventsAt j d2 = eventsAt j doc" by simp_all
      show ?thesis
      proof (cases ok2)
        case True
        with run' False ap k2 show ?thesis by simp
      next
        case ok2f: False
        show ?thesis
        proof (cases "applyToElement d2 (findBestByFingerprint d2 loc (fr_fingerprint item)) item")
          case (Inl e)
          with run' False ap ok2f k2 show ?thesis by simp
        next
          case (Inr q)
          obtain ok3 d3 where q: "q = (ok3, d3)" by (cases q)
          from Inr q have ap3: "applyToElement d2 (findBestByFingerprint d2 loc (fr_fingerprint item)) item = Inr (ok3, d3)" by simp
          from apply_keeps[OF k2(1) el(2,3) item ne ap3] k2
          have "sameButUnchecked el j d3 \<and> eventsAt j d3 = eventsAt j doc" by simp
          with run' False ap ok2f ap3 show ?thesis by simp
        qed
      qed
    qed
  qed
qed

text \<open>
  C6. Applying a stored radio record to a live radio element succeeds exactly when the
  element is enabled and its value equals the stored value; it then sets \<open>checked\<close> to
  the stored state, the browser unchecks the other radios of the group when that state is
  \<open>true\<close>, and the two events are dispatched. When the values differ the application
  reports \<open>false\<close> and changes nothing. In a whole restore turn for that record, through
  all three strategies, the script neither writes to an element whose value differs nor
  dispatches an event on it: at the end the element is as it was, except that the browser
  may have unchecked it because a radio of its group was checked.
\<close>

theorem radio_applied_only_on_equal_value:
  assumes "deref doc (Some i) = Some el" and "tagName el = ''INPUT''" and "inputType el = ''radio''"
    and "fr_value item = Some (Radio c v)"
  shows "applyToElement doc (Some i) item =
           (if \<not> disabled el \<and> getValue el = v
            then Inr (True, dispatchInputChange i
                   (if c then uncheckGroup i (doc\<lparr>doc_elements := (doc_elements doc)[i := el\<lparr>checked := c\<rparr>]\<rparr>)
                    else doc\<lparr>doc_elements := (doc_elements doc)[i := el\<lparr>checked := c\<rparr>]\<rparr>))
            else Inr (False, doc))
         \<and> (getValue el \<noteq> v \<longrightarrow>
              sameButUnchecked el i (snd (snd (restoreItem loc doc item)))
              \<and> eventsAt i (snd (snd (restoreItem loc doc item))) = eventsAt i doc)"
proof -
  obtain err ok doc' where run: "restoreItem loc doc item = (err, ok, doc')"
    by (cases "restoreItem loc doc item") auto
  have s: "sameButUnchecked el i doc" using assms(1) by (simp add: sameButUnchecked_def)
  have "getValue el \<noteq> v \<longrightarrow> sameButUnchecked el i doc' \<and> eventsAt i doc' = eventsAt i doc"
    using restoreItem_keeps[OF s assms(2,3,4) _ run] by blast
  with run apply_radio[OF assms] show ?thesis by simp
qed

theorem radio_applied_only_on_equal_value_witness:
  "applyToElement planDoc (Some 0) proItem = Inr (False, planDoc)
   \<and> sameButUnchecked (radioEl ''basic'' True) 0 (snd (snd (restoreItem demoLoc planDoc proItem)))
   \<and> eventsAt 0 (snd (snd (restoreItem demoLoc planDoc proItem))) = []
   \<and> doc_elements (snd (snd (restoreItem demoLoc planDoc proItem)))
        = [radioEl ''basic'' False, radioEl ''pro'' True]"
proof -
  have d: "deref planDoc (Some 0) = Some (radioEl ''basic'' True)" by code_simp
  have t: "tagName (radioEl ''basic'' True) = ''INPUT''" by code_simp
  have ty: "inputType (radioEl ''basic'' True) = ''radio''" by code_simp
  have fv: "fr_value proItem = Some (Radio True ''pro'')" by code_simp
  have v: "getValue (radioEl ''basic'' True) \<noteq> ''pro''" by code_simp
  have ev: "eventsAt 0 planDoc = []" by code_simp
  have fin: "doc_elements (snd (snd (restoreItem demoLoc planDoc proItem)))
        = [radioEl ''basic'' False, radioEl ''pro'' True]"
    by code_simp
  from radio_applied_only_on_equal_value[OF d t ty fv, of demoLoc] v ev fin
  show ?thesis by simp
qed

section \<open>Properties of the persistence gateway and the eviction policy\<close>

lemma nextFault_fields [simp]:
  "store_pages (snd (nextFault st)) = store_pages st"
  "store_writes (snd (nextFault st)) = store_writes st"
  "store_quota (snd (nextFault st)) = store_quota st"
  "store_bytes (snd (nextFault st)) = store_bytes st"
  by (simp_all add: nextFault_def split: list.splits)

lemma nextFault_none [simp]: "store_faults st = [] \<Longrightarrow> nextFault st = (False, st)"
  by (simp add: nextFault_def)

lemma dropKeys_Cons: "dropKeys (k # ks) ps = dropKeys ks (AList.delete k ps)"
  by (induction ps) (auto simp: dropKeys_def)

lemma dropKeys_nil [simp]: "dropKeys [] ps = ps"
  by (simp add: dropKeys_def)

lemma dropKeys_all: "fst ` set ps \<subseteq> set ks \<Longrightarrow> dropKeys ks ps = []"
  by (auto simp: dropKeys_def filter_empty_conv)

lemma map_upt_shift: "map f [Suc a..<Suc b] = map (\<lambda>m. f (Suc m)) [a..<b]"
  by (simp only: map_Suc_upt[symmetric] map_map o_def)

lemma saveAllPages_ok:
  "store_faults st = [] \<Longrightarrow>
     saveAllPages ps st = (Inr (), st\<lparr>store_pages := ps, store_writes := store_writes st @ [ps]\<rparr>)"
  by (simp add: saveAllPages_def)

lemma getBytesUsed_ok:
  "store_faults st = [] \<Longrightarrow> getBytesUsed st = (Inr (store_bytes st (store_pages st)), st)"
  by (simp add: getBytesUsed_def)

lemma loadAllPages_ok:
  "store_faults st = [] \<Longrightarrow> loadAllPages st = (Inr (store_pages st), st)"
  by (simp add: loadAllPages_def)

lemma evictLoop_stop:
  "int used \<le> target \<or> ks = [] \<Longrightarrow> evictLoop target ks used ps st = (Inr (), st)"
  by (cases ks) auto

lemma evictLoop_step:
  assumes "store_faults st = []" "\<not> int used \<le> target"
  shows "evictLoop target (k # ks) used ps st =
           evictLoop target ks (store_bytes st (AList.delete k ps)) (AList.delete k ps)
             (st\<lparr>store_pages := AList.delete k ps, store_writes := store_writes st @ [AList.delete k ps]\<rparr>)"
proof -
  let ?st1 = "st\<lparr>store_pages := AList.delete k ps, store_writes := store_writes st @ [AList.delete k ps]\<rparr>"
  have s: "saveAllPages (AList.delete k ps) st = (Inr (), ?st1)"
    using assms(1) by (rule saveAllPages_ok)
  have "store_faults ?st1 = []" using assms(1) by simp
  then have g: "getBytesUsed ?st1 = (Inr (store_bytes ?st1 (store_pages ?st1)), ?st1)"
    by (rule getBytesUsed_ok)
  show ?thesis using assms(2) by (simp add: s g)
qed

lemma snapshots_shift:
  "map (\<lambda>m. dropKeys (take m (k # ks)) ps) [1..<Suc (Suc n)]
     = AList.delete k ps # map (\<lambda>m. dropKeys (take m ks) (AList.delete k ps)) [1..<Suc n]"
proof -
  have "[1..<Suc (Suc n)] = 1 # [Suc 1..<Suc (Suc n)]" by (simp add: upt_conv_Cons)
  then have "map (\<lambda>m. dropKeys (take m (k # ks)) ps) [1..<Suc (Suc n)]
      = dropKeys (take 1 (k # ks)) ps # map (\<lambda>m. dropKeys (take m (k # ks)) ps) [Suc 1..<Suc (Suc n)]"
    by (simp only: list.map)
  also have "map (\<lambda>m. dropKeys (take m (k # ks)) ps) [Suc 1..<Suc (Suc n)]
      = map (\<lambda>m. dropKeys (take (Suc m) (k # ks)) ps) [1..<Suc n]" by (rule map_upt_shift)
  finally show ?thesis by (simp only: take_Suc_Cons One_nat_def take_0 dropKeys_Cons dropKeys_nil)
qed

lemma evictLoop_run:
  assumes "store_faults st = []" "store_pages st = ps" "used = store_bytes st ps"
  shows "\<exists>n\<le>length ks.
           evictLoop target ks used ps st =
             (Inr (), st\<lparr>store_pages := dropKeys (take n ks) ps,
                         store_writes := store_writes st @ map (\<lambda>m. dropKeys (take m ks) ps) [1..<Suc n]\<rparr>)
           \<and> (\<forall>m<n. target < int (store_bytes st (dropKeys (take m ks) ps)))
           \<and> (n < length ks \<longrightarrow> int (store_bytes st (dropKeys (take n ks) ps)) \<le> target)"
  using assms
proof (induction ks arbitrary: used ps st)
  case Nil
  have "st = st\<lparr>store_pages := ps, store_writes := store_writes st @ []\<rparr>"
    using Nil.prems(2) by simp
  then show ?case by simp
next
  case (Cons k ks)
  have same: "st = st\<lparr>store_pages := ps, store_writes := store_writes st @ []\<rparr>"
    using Cons.prems(2) by simp
  show ?case
  proof (cases "int used \<le> target")
    case True
    then have "evictLoop target (k # ks) used ps st = (Inr (), st)" by (simp add: evictLoop_stop)
    with same have "evictLoop target (k # ks) used ps st =
      (Inr (), st\<lparr>store_pages := dropKeys (take 0 (k # ks)) ps,
                  store_writes := store_writes st @ map (\<lambda>m. dropKeys (take m (k # ks)) ps) [1..<Suc 0]\<rparr>)"
      by simp
    moreover have "int (store_bytes st (dropKeys (take 0 (k # ks)) ps)) \<le> target"
      using True Cons.prems(3) by simp
    ultimately show ?thesis by (intro exI[of _ 0]) simp
  next
    case False
    define ps1 where "ps1 = AList.delete k ps"
    define st1 where "st1 = st\<lparr>store_pages := ps1, store_writes := store_writes st @ [ps1]\<rparr>"
    have f1: "store_faults st1 = []" using Cons.prems(1) by (simp add: st1_def)
    have p1: "store_pages st1 = ps1" by (simp add: st1_def)
    have b1: "store_bytes st1 = store_bytes st" by (simp add: st1_def)
    have w1: "store_writes st1 = store_writes st @ [ps1]" by (simp add: st1_def)
    have u1: "store_bytes st ps1 = store_bytes st1 ps1" by (simp add: b1)
    from Cons.IH[OF f1 p1 u1] obtain n where n: "n \<le> length ks"
      "evictLoop target ks (store_bytes st ps1) ps1 st1 =
         (Inr (), st1\<lparr>store_pages := dropKeys (take n ks) ps1,
                      store_writes := store_writes st1 @ map (\<lambda>m. dropKeys (take m ks) ps1) [1..<Suc n]\<rparr>)"
      "\<forall>m<n. target < int (store_bytes st1 (dropKeys (take m ks) ps1))"
      "n < length ks \<longrightarrow> int (store_bytes st1 (dropKeys (take n ks) ps1)) \<le> target"
      by blast
    have step: "evictLoop target (k # ks) used ps st = evictLoop target ks (store_bytes st ps1) ps1 st1"
      unfolding ps1_def st1_def using Cons.prems(1) False by (rule evictLoop_step)
    have fin: "st1\<lparr>store_pages := dropKeys (take n ks) ps1,
                  store_writes := store_writes st1 @ map (\<lambda>m. dropKeys (take m ks) ps1) [1..<Suc n]\<rparr>
             = st\<lparr>store_pages := dropKeys (take (Suc n) (k # ks)) ps,
                  store_writes := store_writes st @ map (\<lambda>m. dropKeys (take m (k # ks)) ps) [1..<Suc (Suc n)]\<rparr>"
      unfolding snapshots_shift by (simp add: st1_def ps1_def dropKeys_Cons)
    have res: "evictLoop target (k # ks) used ps st =
       (Inr (), st\<lparr>store_pages := dropKeys (take (Suc n) (k # ks)) ps,
                   store_writes := store_writes st @ map (\<lambda>m. dropKeys (take m (k # ks)) ps) [1..<Suc (Suc n)]\<rparr>)"
      unfolding step n(2) fin ..
    have low: "\<forall>m<Suc n. target < int (store_bytes st (dropKeys (take m (k # ks)) ps))"
    proof (intro allI impI)
      fix m assume m: "m < Suc n"
      show "target < int (store_bytes st (dropKeys (take m (k # ks)) ps))"
      proof (cases m)
        case 0
        with False Cons.prems(3) show ?thesis by simp
      next
        case (Suc m')
        with m n(3) show ?thesis by (simp add: dropKeys_Cons b1 ps1_def)
      qed
    qed
    have stop: "Suc n < length (k # ks) \<longrightarrow> int (store_bytes st (dropKeys (take (Suc n) (k # ks)) ps)) \<le> target"
      using n(4) by (simp add: dropKeys_Cons b1 ps1_def)
    from n(1) have "Suc n \<le> length (k # ks)" by simp
    with res low stop show ?thesis by blast
  qed
qed

lemma target_iff: "(u \<le> targetOf q) = (10 * u \<le> 9 * q)"
  unfolding targetOf_def by linarith

lemma evictionOrder_sorted: "sorted (map (updatedAtOf ps) (evictionOrder ps))"
  by (simp add: evictionOrder_def)

lemma evictionOrder_set: "set (evictionOrder ps) = fst ` set ps"
  by (simp add: evictionOrder_def)

lemma sorted_take_drop:
  assumes "sorted (map f xs)"
  shows "\<forall>a\<in>set (take n xs). \<forall>b\<in>set (drop n xs). f a \<le> f b"
proof -
  have "sorted (map f (take n xs) @ map f (drop n xs))"
    using assms by (simp flip: map_append)
  then show ?thesis by (auto simp: sorted_append)
qed

lemma cleanup_unknown:
  "(case store_quota st of None \<Rightarrow> True | Some q \<Rightarrow> q \<le> 0) \<Longrightarrow> cleanupIfNeeded st = (Inr (), st)"
  by (simp add: cleanupIfNeeded_def split: option.splits)

lemma cleanup_known:
  assumes f: "store_faults st = []" and q: "store_quota st = Some q" "0 < q"
  defines "ps \<equiv> store_pages st" and "keys \<equiv> evictionOrder (store_pages st)"
  shows "\<exists>n\<le>length keys.
           cleanupIfNeeded st =
             (Inr (), st\<lparr>store_pages := dropKeys (take n keys) ps,
                         store_writes := store_writes st @ map (\<lambda>m. dropKeys (take m keys) ps) [1..<Suc n]\<rparr>)
           \<and> (\<forall>m<n. 9 * q < 10 * int (store_bytes st (dropKeys (take m keys) ps)))
           \<and> (10 * int (store_bytes st (dropKeys (take n keys) ps)) \<le> 9 * q
                \<or> dropKeys (take n keys) ps = [])"
proof (cases "int (store_bytes st ps) \<le> targetOf q")
  case True
  have "st = st\<lparr>store_pages := ps, store_writes := store_writes st @ []\<rparr>" by (simp add: ps_def)
  moreover have "cleanupIfNeeded st = (Inr (), st)"
    using True f q by (simp add: cleanupIfNeeded_def getBytesUsed_ok ps_def)
  ultimately have "cleanupIfNeeded st =
      (Inr (), st\<lparr>store_pages := dropKeys (take 0 keys) ps,
                  store_writes := store_writes st @ map (\<lambda>m. dropKeys (take m keys) ps) [1..<Suc 0]\<rparr>)"
    by simp
  moreover have "10 * int (store_bytes st (dropKeys (take 0 keys) ps)) \<le> 9 * q"
    using True by (simp add: target_iff)
  ultimately show ?thesis by (intro exI[of _ 0]) simp
next
  case False
  have run: "cleanupIfNeeded st = evictLoop (targetOf q) keys (store_bytes st ps) ps st"
    using False f q by (simp add: cleanupIfNeeded_def getBytesUsed_ok loadAllPages_ok ps_def keys_def)
  from evictLoop_run[OF f, of ps "store_bytes st ps" keys "targetOf q"]
  obtain n where n: "n \<le> length keys"
    "evictLoop (targetOf q) keys (store_bytes st ps) ps st =
             (Inr (), st\<lparr>store_pages := dropKeys (take n keys) ps,
                         store_writes := store_writes st @ map (\<lambda>m. dropKeys (take m keys) ps) [1..<Suc n]\<rparr>)"
    "\<forall>m<n. targetOf q < int (store_bytes st (dropKeys (take m keys) ps))"
    "n < length keys \<longrightarrow> int (store_bytes st (dropKeys (take n keys) ps)) \<le> targetOf q"
    by (auto simp: ps_def)
  have low: "\<forall>m<n. 9 * q < 10 * int (store_bytes st (dropKeys (take m keys) ps))"
  proof (intro allI impI)
    fix m assume "m < n"
    with n(3) have "\<not> int (store_bytes st (dropKeys (take m keys) ps)) \<le> targetOf q" by auto
    then show "9 * q < 10 * int (store_bytes st (dropKeys (take m keys) ps))"
      by (simp add: target_iff)
  qed
  have fin: "10 * int (store_bytes st (dropKeys (take n keys) ps)) \<le> 9 * q
                \<or> dropKeys (take n keys) ps = []"
  proof (cases "n < length keys")
    case True
    with n(4) show ?thesis by (simp add: target_iff)
  next
    case False
    with n(1) have "take n keys = keys" by simp
    moreover have "fst ` set ps \<subseteq> set keys" by (simp add: keys_def ps_def evictionOrder_set)
    ultimately show ?thesis by (simp add: dropKeys_all)
  qed
  from n(1) n(2) low fin show ?thesis unfolding run by blast
qed



text \<open>
  C7. With the storage interface working, a flush with staged changes writes the merged
  pages and then runs \<open>cleanupIfNeeded\<close> on the result; \<open>cleanupIfNeeded\<close> leaves the store as it is
  when the capacity is unknown (or not positive). With a known capacity \<open>q\<close> it deletes
  the first \<open>n\<close> keys of the eviction order, which lists the keys by ascending
  \<open>updatedAt\<close>, so every deleted record is at most as old as every record kept; it
  writes the store once after each deletion; before each deletion usage exceeded 90% of
  \<open>q\<close>; and at the end usage is at most 90% of \<open>q\<close> or no record remains. Usage at
  most 90% to begin with gives \<open>n = 0\<close>: nothing is deleted and nothing written.
\<close>

lemma flush_then_cleanup:
  assumes "store_faults st = []" "changedMap sc \<noteq> []"
  shows "saveCurrentPage loc now (sc, st) =
           (sc\<lparr>changedMap := []\<rparr>,
            snd (cleanupIfNeeded
                   (st\<lparr>store_pages := flushedPages loc now (changedMap sc) (store_pages st),
                       store_writes := store_writes st
                          @ [flushedPages loc now (changedMap sc) (store_pages st)]\<rparr>)))"
  using assms
  by (simp add: saveCurrentPage_def loadAllPages_ok saveAllPages_ok split: prod.splits)

theorem eviction_oldest_first:
  assumes "store_faults st = []"
  shows "(changedMap sc \<noteq> [] \<longrightarrow>
            saveCurrentPage loc now (sc, st) =
              (sc\<lparr>changedMap := []\<rparr>,
               snd (cleanupIfNeeded
                      (st\<lparr>store_pages := flushedPages loc now (changedMap sc) (store_pages st),
                          store_writes := store_writes st
                             @ [flushedPages loc now (changedMap sc) (store_pages st)]\<rparr>))))
       \<and> ((case store_quota st of None \<Rightarrow> True | Some q \<Rightarrow> q \<le> 0) \<longrightarrow> cleanupIfNeeded st = (Inr (), st))
       \<and> (\<forall>q. store_quota st = Some q \<and> 0 < q \<longrightarrow>
            (\<exists>n\<le>length (evictionOrder (store_pages st)).
               cleanupIfNeeded st =
                 (Inr (), st\<lparr>store_pages := dropKeys (take n (evictionOrder (store_pages st))) (store_pages st),
                             store_writes := store_writes st @
                               map (\<lambda>m. dropKeys (take m (evictionOrder (store_pages st))) (store_pages st))
                                 [1..<Suc n]\<rparr>)
               \<and> (\<forall>m<n. 9 * q < 10 * int (store_bytes st
                              (dropKeys (take m (evictionOrder (store_pages st))) (store_pages st))))
               \<and> (10 * int (store_bytes st
                              (dropKeys (take n (evictionOrder (store_pages st))) (store_pages st))) \<le> 9 * q
                    \<or> dropKeys (take n (evictionOrder (store_pages st))) (store_pages st) = [])
               \<and> (\<forall>k\<in>set (take n (evictionOrder (store_pages st))).
                     \<forall>k'\<in>set (drop n (evictionOrder (store_pages st))).
                        updatedAtOf (store_pages st) k \<le> updatedAtOf (store_pages st) k')))"
proof (intro conjI allI impI)
  assume "changedMap sc \<noteq> []"
  with assms show "saveCurrentPage loc now (sc, st) =
              (sc\<lparr>changedMap := []\<rparr>,
               snd (cleanupIfNeeded
                      (st\<lparr>store_pages := flushedPages loc now (changedMap sc) (store_pages st),
                          store_writes := store_writes st
                             @ [flushedPages loc now (changedMap sc) (store_pages st)]\<rparr>)))"
    by (rule flush_then_cleanup)
next
  assume "case store_quota st of None \<Rightarrow> True | Some q \<Rightarrow> q \<le> 0"
  then show "cleanupIfNeeded st = (Inr (), st)" by (rule cleanup_unknown)
next
  fix q assume q: "store_quota st = Some q \<and> 0 < q"
  from cleanup_known[OF assms, of q] q
    sorted_take_drop[OF evictionOrder_sorted[of "store_pages st"]]
  show "\<exists>n\<le>length (evictionOrder (store_pages st)).
               cleanupIfNeeded st =
                 (Inr (), st\<lparr>store_pages := dropKeys (take n (evictionOrder (store_pages st))) (store_pages st),
                             store_writes := store_writes st @
                               map (\<lambda>m. dropKeys (take m (evictionOrder (store_pages st))) (store_pages st))
                                 [1..<Suc n]\<rparr>)
               \<and> (\<forall>m<n. 9 * q < 10 * int (store_bytes st
                              (dropKeys (take m (evictionOrder (store_pages st))) (store_pages st))))
               \<and> (10 * int (store_bytes st
                              (dropKeys (take n (evictionOrder (store_pages st))) (store_pages st))) \<le> 9 * q
                    \<or> dropKeys (take n (evictionOrder (store_pages st))) (store_pages st) = [])
               \<and> (\<forall>k\<in>set (take n (evictionOrder (store_pages st))).
                     \<forall>k'\<in>set (drop n (evictionOrder (store_pages st))).
                        updatedAtOf (store_pages st) k \<le> updatedAtOf (store_pages st) k')"
    by blast
qed



theorem eviction_oldest_first_witness:
  "store_faults demoStore = [] \<and> store_quota demoStore = Some 1000
   \<and> store_bytes demoStore (store_pages demoStore) = 950
   \<and> evictionOrder (store_pages demoStore) = [''p2'', ''p3'', ''p1'']
   \<and> fst (cleanupIfNeeded demoStore) = Inr ()
   \<and> map fst (store_pages (snd (cleanupIfNeeded demoStore))) = [''p1'', ''p3'']
   \<and> store_bytes demoStore (store_pages (snd (cleanupIfNeeded demoStore))) = 650
   \<and> changedMap stagedScript \<noteq> []
   \<and> fst (saveCurrentPage demoLoc 40 (stagedScript, demoStore)) = stagedScript\<lparr>changedMap := []\<rparr>
   \<and> map fst (store_pages (snd (saveCurrentPage demoLoc 40 (stagedScript, demoStore))))
        = [''p1'', ''https://shop.example/checkout?step=2'']"
proof -
  have f: "store_faults demoStore = []" by code_simp
  have q: "store_quota demoStore = Some 1000" by code_simp
  have b: "store_bytes demoStore (store_pages demoStore) = 950" by code_simp
  have o: "evictionOrder (store_pages demoStore) = [''p2'', ''p3'', ''p1'']" by code_simp
  have r: "map fst (store_pages (snd (cleanupIfNeeded demoStore))) = [''p1'', ''p3'']" by code_simp
  have b': "store_bytes demoStore (store_pages (snd (cleanupIfNeeded demoStore))) = 650" by code_simp
  have s: "changedMap stagedScript \<noteq> []" by code_simp
  have p: "map fst (store_pages (snd (saveCurrentPage demoLoc 40 (stagedScript, demoStore))))
        = [''p1'', ''https://shop.example/checkout?step=2'']" by code_simp
  have c: "store_quota demoStore = Some 1000 \<and> (0::int) < 1000" by (simp add: q)
  note ev = eviction_oldest_first[OF f, of stagedScript demoLoc 40]
  from ev[THEN conjunct1] s
  have fl: "fst (saveCurrentPage demoLoc 40 (stagedScript, demoStore)) = stagedScript\<lparr>changedMap := []\<rparr>"
    by simp
  from ev[THEN conjunct2, THEN conjunct2, rule_format, OF c]
  obtain n where "cleanupIfNeeded demoStore =
      (Inr (), demoStore\<lparr>store_pages :=
           dropKeys (take n (evictionOrder (store_pages demoStore))) (store_pages demoStore),
         store_writes := store_writes demoStore @
            map (\<lambda>m. dropKeys (take m (evictionOrder (store_pages demoStore))) (store_pages demoStore))
              [1..<Suc n]\<rparr>)"
    by blast
  then have "fst (cleanupIfNeeded demoStore) = Inr ()" by simp
  with f q b o r b' s fl p show ?thesis by simp
qed

section \<open>Properties of the change tracker\<close>

lemma nextFault_writes: "nextFault st = (f, st1) \<Longrightarrow> store_writes st1 = store_writes st"
  using nextFault_fields(2)[of st] by simp

lemma saveAllPages_writes:
  "\<exists>rest. store_writes (snd (saveAllPages ps st)) = store_writes st @ rest"
  by (cases "nextFault st") (auto simp: saveAllPages_def dest: nextFault_writes)

lemma getBytesUsed_writes: "store_writes (snd (getBytesUsed st)) = store_writes st"
  by (cases "nextFault st") (auto simp: getBytesUsed_def dest: nextFault_writes)

lemma loadAllPages_writes: "store_writes (snd (loadAllPages st)) = store_writes st"
  by (cases "nextFault st") (auto simp: loadAllPages_def dest: nextFault_writes)

lemma evictLoop_writes:
  "\<exists>rest. store_writes (snd (evictLoop target ks used ps st)) = store_writes st @ rest"
proof (induction ks arbitrary: used ps st)
  case Nil
  then show ?case by simp
next
  case (Cons k ks)
  show ?case
  proof (cases "int used \<le> target")
    case True
    then show ?thesis by simp
  next
    case False
    obtain r1 st1 where s: "saveAllPages (AList.delete k ps) st = (r1, st1)"
      by (cases "saveAllPages (AList.delete k ps) st")
    from saveAllPages_writes[of "AList.delete k ps" st] s
    obtain rest1 where w1: "store_writes st1 = store_writes st @ rest1" by auto
    show ?thesis
    proof (cases r1)
      case (Inl e)
      with False s w1 show ?thesis by simp
    next
      case (Inr u)
      obtain r2 st2 where g: "getBytesUsed st1 = (r2, st2)" by (cases "getBytesUsed st1")
      from getBytesUsed_writes[of st1] g have w2: "store_writes st2 = store_writes st1" by simp
      show ?thesis
      proof (cases r2)
        case (Inl e)
        with False s Inr g w1 w2 show ?thesis by simp
      next
        case used': (Inr used')
        from Cons.IH[of used' "AList.delete k ps" st2]
        obtain rest3 where "store_writes (snd (evictLoop target ks used' (AList.delete k ps) st2))
            = store_writes st2 @ rest3" by blast
        with False s Inr g used' w1 w2 show ?thesis by simp
      qed
    qed
  qed
qed

lemma cleanup_writes:
  "\<exists>rest. store_writes (snd (cleanupIfNeeded st)) = store_writes st @ rest"
proof (cases "case store_quota st of None \<Rightarrow> True | Some q \<Rightarrow> q \<le> 0")
  case True
  then show ?thesis by (simp add: cleanup_unknown)
next
  case False
  then obtain q where q: "store_quota st = Some q" "0 < q" by (auto split: option.splits)
  obtain r1 st1 where g: "getBytesUsed st = (r1, st1)" by (cases "getBytesUsed st")
  from getBytesUsed_writes[of st] g have w1: "store_writes st1 = store_writes st" by simp
  show ?thesis
  proof (cases r1)
    case (Inl e)
    with q g w1 show ?thesis by (simp add: cleanupIfNeeded_def)
  next
    case (Inr used)
    show ?thesis
    proof (cases "int used \<le> targetOf q")
      case True
      with q g Inr w1 show ?thesis by (simp add: cleanupIfNeeded_def)
    next
      case over: False
      obtain r2 st2 where l: "loadAllPages st1 = (r2, st2)" by (cases "loadAllPages st1")
      from loadAllPages_writes[of st1] l have w2: "store_writes st2 = store_writes st1" by simp
      show ?thesis
      proof (cases r2)
        case (Inl e)
        with q g Inr over l w1 w2 show ?thesis by (simp add: cleanupIfNeeded_def)
      next
        case ps: (Inr ps)
        from evictLoop_writes[of "targetOf q" "evictionOrder ps" used ps st2]
        obtain rest where "store_writes (snd (evictLoop (targetOf q) (evictionOrder ps) used ps st2))
            = store_writes st2 @ rest" by blast
        with q g Inr over l ps w1 w2 show ?thesis by (simp add: cleanupIfNeeded_def)
      qed
    qed
  qed
qed

lemma flush_fail_read:
  assumes "changedMap sc \<noteq> []" "fst (nextFault st)"
  shows "saveCurrentPage loc now (sc, st) = (sc, snd (nextFault st))"
  using assms by (cases "nextFault st") (simp add: saveCurrentPage_def loadAllPages_def)

lemma flush_fail_write:
  assumes "changedMap sc \<noteq> []" "\<not> fst (nextFault st)" "fst (nextFault (snd (nextFault st)))"
  shows "saveCurrentPage loc now (sc, st) = (sc, snd (nextFault (snd (nextFault st))))"
  using assms
  by (cases "nextFault st"; cases "nextFault (snd (nextFault st))")
     (simp add: saveCurrentPage_def loadAllPages_def saveAllPages_def)

lemma flush_success:
  assumes "changedMap sc \<noteq> []" "\<not> fst (nextFault st)" "\<not> fst (nextFault (snd (nextFault st)))"
  shows "fst (saveCurrentPage loc now (sc, st)) = sc\<lparr>changedMap := []\<rparr>
         \<and> (\<exists>rest. store_writes (snd (saveCurrentPage loc now (sc, st)))
                = store_writes st @ flushedPages loc now (changedMap sc) (store_pages st) # rest)"
proof -
  obtain f1 st1 where n1: "nextFault st = (f1, st1)" by (cases "nextFault st")
  obtain f2 st2 where n2: "nextFault st1 = (f2, st2)" by (cases "nextFault st1")
  from assms n1 n2 have f: "\<not> f1" "\<not> f2" by simp_all
  have p1: "store_pages st1 = store_pages st" using nextFault_fields(1)[of st] n1 by simp
  have w2: "store_writes st2 = store_writes st"
    using nextFault_writes[OF n1] nextFault_writes[OF n2] by simp
  define X where "X = flushedPages loc now (changedMap sc) (store_pages st)"
  define st2' where "st2' = st2\<lparr>store_pages := X, store_writes := store_writes st2 @ [X]\<rparr>"
  obtain r st3 where c: "cleanupIfNeeded st2' = (r, st3)" by (cases "cleanupIfNeeded st2'")
  from cleanup_writes[of st2'] c obtain rest where "store_writes st3 = store_writes st2' @ rest"
    by auto
  then have w3: "store_writes st3 = store_writes st @ X # rest" by (simp add: st2'_def w2)
  have "saveCurrentPage loc now (sc, st) = (sc\<lparr>changedMap := []\<rparr>, st3)"
    using assms(1) n1 n2 f p1 c
    by (simp add: saveCurrentPage_def loadAllPages_def saveAllPages_def st2'_def X_def)
  with w3 show ?thesis by (simp add: X_def)
qed

lemma flush_cases:
  assumes "changedMap sc \<noteq> []"
  shows "fst (saveCurrentPage loc now (sc, st)) = sc
       \<or> (fst (saveCurrentPage loc now (sc, st)) = sc\<lparr>changedMap := []\<rparr>
           \<and> (\<exists>rest. store_writes (snd (saveCurrentPage loc now (sc, st)))
                = store_writes st @ flushedPages loc now (changedMap sc) (store_pages st) # rest))"
proof (cases "fst (nextFault st)")
  case True
  from flush_fail_read[OF assms True] show ?thesis by simp
next
  case False
  show ?thesis
  proof (cases "fst (nextFault (snd (nextFault st)))")
    case True
    from flush_fail_write[OF assms False True] show ?thesis by simp
  next
    case ok: False
    from flush_success[OF assms False ok] show ?thesis by blast
  qed
qed

text \<open>
  C8. A flush with staged changes whose read of the store is rejected, or whose write is
  rejected, returns normally with the staged map and the stored pages as they were. The
  staged map after a flush is either unchanged or emptied, and it is emptied only when the
  merged pages were written. After such a failed flush the next flush, with the storage
  working again, writes the merge of the same staged changes and then empties the map.
\<close>

theorem failed_flush_keeps_staged:
  assumes "changedMap sc \<noteq> []"
  shows "(store_faults st = True # fs \<longrightarrow>
            saveCurrentPage loc now (sc, st) = (sc, st\<lparr>store_faults := fs\<rparr>))
       \<and> (store_faults st = False # True # fs \<longrightarrow>
            saveCurrentPage loc now (sc, st) = (sc, st\<lparr>store_faults := fs\<rparr>))
       \<and> (fst (saveCurrentPage loc now (sc, st)) = sc
            \<or> (fst (saveCurrentPage loc now (sc, st)) = sc\<lparr>changedMap := []\<rparr>
                \<and> (\<exists>rest. store_writes (snd (saveCurrentPage loc now (sc, st)))
                      = store_writes st @ flushedPages loc now (changedMap sc) (store_pages st) # rest)))
       \<and> (store_faults st = [True] \<or> store_faults st = [False, True] \<longrightarrow>
            fst (saveCurrentPage loc now' (saveCurrentPage loc now (sc, st))) = sc\<lparr>changedMap := []\<rparr>
            \<and> (\<exists>rest. store_writes (snd (saveCurrentPage loc now' (saveCurrentPage loc now (sc, st))))
                  = store_writes st @ flushedPages loc now' (changedMap sc) (store_pages st) # rest))"
proof (intro conjI impI)
  assume "store_faults st = True # fs"
  then show "saveCurrentPage loc now (sc, st) = (sc, st\<lparr>store_faults := fs\<rparr>)"
    using flush_fail_read[OF assms, of st loc now] by (simp add: nextFault_def)
next
  assume "store_faults st = False # True # fs"
  then show "saveCurrentPage loc now (sc, st) = (sc, st\<lparr>store_faults := fs\<rparr>)"
    using flush_fail_write[OF assms, of st loc now] by (simp add: nextFault_def)
next
  show "fst (saveCurrentPage loc now (sc, st)) = sc
            \<or> (fst (saveCurrentPage loc now (sc, st)) = sc\<lparr>changedMap := []\<rparr>
                \<and> (\<exists>rest. store_writes (snd (saveCurrentPage loc now (sc, st)))
                      = store_writes st @ flushedPages loc now (changedMap sc) (store_pages st) # rest))"
    using assms by (rule flush_cases)
next
  assume t: "store_faults st = [True] \<or> store_faults st = [False, True]"
  have first: "saveCurrentPage loc now (sc, st) = (sc, st\<lparr>store_faults := []\<rparr>)"
    using t flush_fail_read[OF assms, of st loc now] flush_fail_write[OF assms, of st loc now]
    by (auto simp: nextFault_def)
  have ok: "\<not> fst (nextFault (st\<lparr>store_faults := []\<rparr>))"
     "\<not> fst (nextFault (snd (nextFault (st\<lparr>store_faults := []\<rparr>))))"
    by (simp_all add: nextFault_def)
  from flush_success[OF assms ok, of loc now']
  show "fst (saveCurrentPage loc now' (saveCurrentPage loc now (sc, st))) = sc\<lparr>changedMap := []\<rparr>"
    and "\<exists>rest. store_writes (snd (saveCurrentPage loc now' (saveCurrentPage loc now (sc, st))))
                  = store_writes st @ flushedPages loc now' (changedMap sc) (store_pages st) # rest"
    unfolding first by simp_all
qed


theorem failed_flush_keeps_staged_witness:
  "changedMap stagedScript \<noteq> [] \<and> store_faults faultyStore = [True]
   \<and> fst (saveCurrentPage demoLoc 7 (stagedScript, faultyStore)) = stagedScript
   \<and> store_writes (snd (saveCurrentPage demoLoc 7 (stagedScript, faultyStore))) = []
   \<and> fst (saveCurrentPage demoLoc 8 (saveCurrentPage demoLoc 7 (stagedScript, faultyStore)))
        = stagedScript\<lparr>changedMap := []\<rparr>"
proof -
  have c: "changedMap stagedScript \<noteq> []" by code_simp
  have t: "store_faults faultyStore = True # []" by code_simp
  have w: "store_writes faultyStore = []" by code_simp
  note flush = failed_flush_keeps_staged[OF c, of faultyStore "[]" demoLoc 7 8]
  from flush t have a: "saveCurrentPage demoLoc 7 (stagedScript, faultyStore)
      = (stagedScript, faultyStore\<lparr>store_faults := []\<rparr>)" by blast
  from flush t have b: "fst (saveCurrentPage demoLoc 8 (saveCurrentPage demoLoc 7 (stagedScript, faultyStore)))
      = stagedScript\<lparr>changedMap := []\<rparr>" by blast
  have g1: "fst (saveCurrentPage demoLoc 7 (stagedScript, faultyStore)) = stagedScript"
    by (simp only: a fst_conv)
  have g2: "store_writes (snd (saveCurrentPage demoLoc 7 (stagedScript, faultyStore))) = []"
    using w by (simp add: a)
  from c t g1 g2 b show ?thesis by blast
qed

lemma map_of_setAll: "map_of (setAll es m) = map_of m ++ map_of (rev es)"
proof (induction es arbitrary: m)
  case Nil
  then show ?case by (simp add: setAll_def)
next
  case (Cons e es)
  have step: "setAll (e # es) m = setAll es (AList.update (fst e) (snd e) m)"
    by (simp add: setAll_def)
  have "map_of (setAll (e # es) m) = map_of (AList.update (fst e) (snd e) m) ++ map_of (rev es)"
    by (simp only: step Cons.IH)
  also have "\<dots> = (map_of m)(fst e \<mapsto> snd e) ++ map_of (rev es)"
    by (simp only: update_conv')
  also have "\<dots> = map_of m ++ (map_of [e] ++ map_of (rev es))"
    by (rule ext) (cases e, simp add: map_add_def split: option.splits)
  finally show ?case by simp
qed

lemma distinct_setAll: "distinct (map fst m) \<Longrightarrow> distinct (map fst (setAll es m))"
proof (induction es arbitrary: m)
  case Nil
  then show ?case by (simp add: setAll_def)
next
  case (Cons e es)
  have "setAll (e # es) m = setAll es (AList.update (fst e) (snd e) m)" by (simp add: setAll_def)
  with Cons show ?case by (simp add: distinct_update)
qed

lemma map_of_rev_distinct: "distinct (map fst xs) \<Longrightarrow> map_of (rev xs) = map_of xs"
  by (subst map_of_inject_set) (simp_all add: rev_map[symmetric])

lemma distinct_merged: "distinct (map fst (mergeChanges existing changed))"
  by (cases existing) (simp_all add: mergeChanges_def distinct_setAll)

lemma map_of_merged:
  "map_of (mergeChanges existing changed) =
     map_of (rev (case existing of None \<Rightarrow> [] | Some items \<Rightarrow> keyed items)) ++ map_of (rev changed)"
  by (cases existing) (simp_all add: mergeChanges_def map_of_setAll)

lemma in_merged_iff:
  "(kv \<in> set (mergeChanges existing changed)) = (map_of (mergeChanges existing changed) (fst kv) = Some (snd kv))"
  using distinct_merged[of existing changed] by (cases kv) simp

lemma staged_in_merged:
  assumes "distinct (map fst changed)" "kv \<in> set changed"
  shows "kv \<in> set (mergeChanges existing changed)"
proof -
  from assms have "map_of changed (fst kv) = Some (snd kv)" by (cases kv) simp
  with assms(1) have "map_of (rev changed) (fst kv) = Some (snd kv)" by (simp add: map_of_rev_distinct)
  then show ?thesis by (simp add: in_merged_iff map_of_merged)
qed

lemma kept_in_merged:
  assumes "distinct (map (\<lambda>i. stableKey (fr_id i)) items)" "item \<in> set items"
    and "stableKey (fr_id item) \<notin> fst ` set changed"
  shows "(stableKey (fr_id item), item) \<in> set (mergeChanges (Some items) changed)"
proof -
  have d: "distinct (map fst (keyed items))" using assms(1) by (simp add: keyed_def o_def)
  have "(stableKey (fr_id item), item) \<in> set (keyed items)" using assms(2) by (auto simp: keyed_def)
  with d have "map_of (keyed items) (stableKey (fr_id item)) = Some item" by simp
  with d have "map_of (rev (keyed items)) (stableKey (fr_id item)) = Some item"
    by (simp add: map_of_rev_distinct)
  moreover have "map_of (rev changed) (stableKey (fr_id item)) = None"
    using assms(3) by (simp add: map_of_eq_None_iff)
  ultimately show ?thesis by (simp add: in_merged_iff map_of_merged map_add_def)
qed

lemma merged_origin:
  assumes "kv \<in> set (mergeChanges existing changed)"
  shows "kv \<in> set changed
       \<or> (fst kv \<notin> fst ` set changed
           \<and> (\<exists>items. existing = Some items \<and> snd kv \<in> set items \<and> fst kv = stableKey (fr_id (snd kv))))"
proof (cases "map_of (rev changed) (fst kv)")
  case None
  then have nk: "fst kv \<notin> fst ` set changed" by (simp add: map_of_eq_None_iff)
  from assms None have m: "map_of (rev (case existing of None \<Rightarrow> [] | Some items \<Rightarrow> keyed items)) (fst kv) = Some (snd kv)"
    by (simp add: in_merged_iff map_of_merged map_add_def)
  then obtain items where e: "existing = Some items" by (cases existing) auto
  with m have "(fst kv, snd kv) \<in> set (rev (keyed items))" by (auto dest: map_of_SomeD)
  then have "snd kv \<in> set items \<and> fst kv = stableKey (fr_id (snd kv))" by (auto simp: keyed_def)
  with nk e show ?thesis by simp
next
  case (Some v)
  with assms have "v = snd kv" by (simp add: in_merged_iff map_of_merged map_add_def)
  with Some have "(fst kv, snd kv) \<in> set (rev changed)" by (auto dest: map_of_SomeD)
  then show ?thesis by simp
qed

lemma flushed_lookup:
  "map_of (flushedPages loc now changed ps) (pageKey loc) =
     Some \<lparr>pr_updatedAt = now, pr_url = loc_href loc,
           pr_data = Some (map snd (mergeChanges (existingData loc ps) changed))\<rparr>"
  "k \<noteq> pageKey loc \<Longrightarrow> map_of (flushedPages loc now changed ps) k = map_of ps k"
  by (simp_all add: flushedPages_def Let_def update_conv')

lemma recordChange_staging:
  "map_of (changedMap (recordChange doc loc el sc)) =
     (map_of (changedMap sc))(stableKey (Some (getStableId el)) \<mapsto> changeRecord doc loc el)"
  "distinct (map fst (changedMap sc)) \<Longrightarrow> distinct (map fst (changedMap (recordChange doc loc el sc)))"
  by (simp_all add: recordChange_def Let_def update_conv' distinct_update)

text \<open>
  C9. A flush that succeeded (it emptied the staged map) wrote the loaded pages with the
  record of this page replaced by: the time of the flush, the address, and the values of
  the \<open>Map\<close> \<open>merged\<close>; the other pages are as they were. \<open>merged\<close> has one entry
  per key. Every staged entry is in it (the staged map having one entry per key), so the
  staged value wins; every stored field whose key is not staged is in it (the stored
  fields having distinct keys), so it is preserved; and it has no other entry. Staging
  itself maps the key of the element to its newest record, replacing an older one, and
  keeps one entry per key.
\<close>

theorem flush_merges_staged_over_persisted:
  assumes "changedMap sc \<noteq> []" and "changedMap (fst (saveCurrentPage loc now (sc, st))) = []"
  shows "(\<exists>rest. store_writes (snd (saveCurrentPage loc now (sc, st)))
            = store_writes st @ flushedPages loc now (changedMap sc) (store_pages st) # rest)
       \<and> map_of (flushedPages loc now (changedMap sc) (store_pages st)) (pageKey loc) =
            Some \<lparr>pr_updatedAt = now, pr_url = loc_href loc,
                  pr_data = Some (map snd (mergeChanges (existingData loc (store_pages st)) (changedMap sc)))\<rparr>
       \<and> (\<forall>k. k \<noteq> pageKey loc \<longrightarrow>
             map_of (flushedPages loc now (changedMap sc) (store_pages st)) k = map_of (store_pages st) k)
       \<and> distinct (map fst (mergeChanges (existingData loc (store_pages st)) (changedMap sc)))
       \<and> (distinct (map fst (changedMap sc)) \<longrightarrow>
             (\<forall>kv\<in>set (changedMap sc).
                 kv \<in> set (mergeChanges (existingData loc (store_pages st)) (changedMap sc))))
       \<and> (\<forall>items. existingData loc (store_pages st) = Some items
                    \<and> distinct (map (\<lambda>i. stableKey (fr_id i)) items) \<longrightarrow>
             (\<forall>item\<in>set items. stableKey (fr_id item) \<notin> fst ` set (changedMap sc) \<longrightarrow>
                 (stableKey (fr_id item), item)
                   \<in> set (mergeChanges (existingData loc (store_pages st)) (changedMap sc))))
       \<and> (\<forall>kv\<in>set (mergeChanges (existingData loc (store_pages st)) (changedMap sc)).
             kv \<in> set (changedMap sc)
             \<or> (fst kv \<notin> fst ` set (changedMap sc)
                 \<and> (\<exists>items. existingData loc (store_pages st) = Some items \<and> snd kv \<in> set items
                       \<and> fst kv = stableKey (fr_id (snd kv)))))
       \<and> map_of (changedMap (recordChange doc loc el sc)) =
            (map_of (changedMap sc))(stableKey (Some (getStableId el)) \<mapsto> changeRecord doc loc el)
       \<and> (distinct (map fst (changedMap sc)) \<longrightarrow>
             distinct (map fst (changedMap (recordChange doc loc el sc))))"
proof (intro conjI)
  from assms have "fst (saveCurrentPage loc now (sc, st)) \<noteq> sc" by auto
  with flush_cases[OF assms(1), of loc now st]
  show "\<exists>rest. store_writes (snd (saveCurrentPage loc now (sc, st)))
            = store_writes st @ flushedPages loc now (changedMap sc) (store_pages st) # rest"
    by blast
qed (auto simp: flushed_lookup distinct_merged recordChange_staging
       intro: staged_in_merged kept_in_merged dest: merged_origin)


theorem flush_merges_staged_over_persisted_witness:
  "changedMap stagedScript \<noteq> []
   \<and> changedMap (fst (saveCurrentPage demoLoc 9 (stagedScript, savedStore))) = []
   \<and> map_of (flushedPages demoLoc 9 (changedMap stagedScript) (store_pages savedStore)) (pageKey demoLoc)
        = Some \<lparr>pr_updatedAt = 9, pr_url = loc_href demoLoc,
                pr_data = Some [changeRecord demoDoc demoLoc (cityInput ''Oslo''),
                                changeRecord demoDoc demoLoc agreeBox]\<rparr>"
proof -
  have c: "changedMap stagedScript \<noteq> []" by code_simp
  have ok: "changedMap (fst (saveCurrentPage demoLoc 9 (stagedScript, savedStore))) = []" by code_simp
  have m: "map snd (mergeChanges (existingData demoLoc (store_pages savedStore)) (changedMap stagedScript))
             = [changeRecord demoDoc demoLoc (cityInput ''Oslo''), changeRecord demoDoc demoLoc agreeBox]"
    by code_simp
  from flush_merges_staged_over_persisted[OF c ok, of demoDoc "cityInput ''Oslo''"] c ok m
  show ?thesis by simp
qed


section \<open>Restoring a page that has no record\<close>

text \<open>
  C5. When the read of the store succeeds and the store has no record under the key of
  the page, a restore request answers \<open>{ok: false, reason: "No saved data for this
  page."}\<close> and leaves the document (every element and the list of dispatched events) and
  the state of the script as they were.
\<close>

theorem restore_without_record:
  assumes "\<not> fst (nextFault st)" and "map_of (store_pages st) (pageKey loc) = None"
  shows "restoreCurrentPage loc observeOk batches (sc, st, doc) =
           (Inr \<lparr>resp_ok = False, resp_reason = Some ''No saved data for this page.'',
                 resp_missing = None\<rparr>, sc, snd (nextFault st), doc)"
proof -
  obtain f st1 where n: "nextFault st = (f, st1)" by (cases "nextFault st")
  with assms(1) have f: "\<not> f" by simp
  have "store_pages st1 = store_pages st" using nextFault_fields(1)[of st] n by simp
  with assms(2) n f show ?thesis
    by (simp add: restoreCurrentPage_def loadAllPages_def existingData_def)
qed



theorem restore_without_record_witness:
  "map_of (store_pages emptyStore) (pageKey demoLoc) = None
   \<and> fst (restoreCurrentPage demoLoc True [] (idleScript, emptyStore, planDoc))
        = Inr \<lparr>resp_ok = False, resp_reason = Some ''No saved data for this page.'', resp_missing = None\<rparr>
   \<and> doc_elements (snd (snd (snd (restoreCurrentPage demoLoc True [] (idleScript, emptyStore, planDoc)))))
        = doc_elements planDoc
   \<and> doc_events (snd (snd (snd (restoreCurrentPage demoLoc True [] (idleScript, emptyStore, planDoc)))))
        = doc_events planDoc"
proof -
  have f: "\<not> fst (nextFault emptyStore)" by code_simp
  have n: "map_of (store_pages emptyStore) (pageKey demoLoc) = None" by code_simp
  from restore_without_record[OF f n, of True "[]" idleScript planDoc] n show ?thesis by simp
qed

end
